theory Spec2Isabelle
  imports Main
begin

section \<open>JavaScript values used by the funnel editor\<close>

text \<open>
  The funnel configuration is plain JSON data.  A JavaScript object is modelled as an
  association list in the object's own iteration order (\<open>Object.keys\<close>), with at most one
  entry per key.  Property keys are assumed not to be array indices (\<open>"0"\<close>, \<open>"1"\<close>, ...),
  which JavaScript would enumerate first in numeric order, and (except for the kind names
  that the Rendering Engine looks up) not to be names inherited from \<open>Object.prototype\<close>.  Numbers are exact integers (JavaScript doubles agree with
  them below \<open>2^53\<close>); \<open>None\<close> of type \<open>int option\<close> stands for \<open>NaN\<close>.
  An array carries its elements and the extra named properties assigned to it at run time
  (none after \<open>JSON.parse\<close>).  Strings are lists of 8-bit characters; of the white space
  that \<open>parseInt\<close> skips, the ASCII characters are modelled.
\<close>

datatype json =
    JNull
  | JBool bool
  | JNum int
  | JStr string
  | JArr "json list" "(string \<times> json) list"
  | JObj "(string \<times> json) list"

type_synonym 'v obj = "(string \<times> 'v) list"

text \<open>\<open>o[k]\<close>: the value stored under a key, \<open>None\<close> for \<open>undefined\<close>.\<close>

definition obj_get :: "'v obj \<Rightarrow> string \<Rightarrow> 'v option" where
  "obj_get ob k = map_of ob k"

text \<open>\<open>o[k] = v\<close>: an existing key keeps its position, a new key goes last.\<close>

primrec obj_set :: "string \<Rightarrow> 'v \<Rightarrow> 'v obj \<Rightarrow> 'v obj" where
  "obj_set k v [] = [(k, v)]"
| "obj_set k v (e # es) = (if fst e = k then (k, v) # es else e # obj_set k v es)"

text \<open>\<open>Object.fromEntries\<close>: assigns the entries from left to right.\<close>

definition fromEntries :: "(string \<times> 'v) list \<Rightarrow> 'v obj" where
  "fromEntries es = foldl (\<lambda>ob (k, v). obj_set k v ob) [] es"

text \<open>JavaScript truthiness of a JSON value and of a string.\<close>

fun truthy :: "json \<Rightarrow> bool" where
  "truthy JNull = False"
| "truthy (JBool b) = b"
| "truthy (JNum n) = (n \<noteq> 0)"
| "truthy (JStr s) = (s \<noteq> [])"
| "truthy (JArr xs ps) = True"
| "truthy (JObj ps) = True"

subsection \<open>Number.prototype.toString and parseInt\<close>

definition digit_char :: "nat \<Rightarrow> char" where
  "digit_char d = char_of (48 + d)"

function digits10 :: "nat \<Rightarrow> string" where
  "digits10 n = (if n < 10 then [digit_char n] else digits10 (n div 10) @ [digit_char (n mod 10)])"
  by pat_completeness auto
termination
  by (relation "measure (\<lambda>n. n)") auto

declare digits10.simps [simp del]

text \<open>\<open>x.toString()\<close> of a number; \<open>None\<close> is \<open>NaN\<close>.\<close>

definition int_toString :: "int \<Rightarrow> string" where
  "int_toString i = (if i < 0 then CHR ''-'' # digits10 (nat (- i)) else digits10 (nat i))"

definition num_toString :: "int option \<Rightarrow> string" where
  "num_toString x = (case x of None \<Rightarrow> ''NaN'' | Some i \<Rightarrow> int_toString i)"

definition isWhiteSpace :: "char \<Rightarrow> bool" where
  "isWhiteSpace c = (c \<in> set [char_of (9::nat), char_of (10::nat), char_of (11::nat),
      char_of (12::nat), char_of (13::nat), CHR '' ''])"

text \<open>The value of a character as a digit of radix up to 36, if it is one.\<close>

definition digit_val :: "char \<Rightarrow> nat option" where
  "digit_val c =
     (let k = (of_char c :: nat) in
      if 48 \<le> k \<and> k \<le> 57 then Some (k - 48)
      else if 97 \<le> k \<and> k \<le> 122 then Some (k - 87)
      else if 65 \<le> k \<and> k \<le> 90 then Some (k - 55)
      else None)"

definition is_digit :: "nat \<Rightarrow> char \<Rightarrow> bool" where
  "is_digit r c = (case digit_val c of None \<Rightarrow> False | Some d \<Rightarrow> d < r)"

definition digits_value :: "nat \<Rightarrow> string \<Rightarrow> nat" where
  "digits_value r z = foldl (\<lambda>a c. a * r + the (digit_val c)) 0 z"

text \<open>
  \<open>parseInt(s, radix)\<close> for an absent radix (\<open>None\<close>) or a radix between 2 and 36:
  leading white space is skipped, a sign is read, without a radix (or with radix 16) a
  prefix \<open>0x\<close>/\<open>0X\<close> selects base 16, and the longest prefix of digits is the value; no
  digit gives \<open>NaN\<close>.
\<close>

definition parseInt_radix :: "string \<Rightarrow> nat option \<Rightarrow> int option" where
  "parseInt_radix s radix =
     (let s1 = dropWhile isWhiteSpace s;
          neg = (s1 \<noteq> [] \<and> hd s1 = CHR ''-'');
          s2 = (if s1 \<noteq> [] \<and> (hd s1 = CHR ''+'' \<or> hd s1 = CHR ''-'') then tl s1 else s1);
          stripPrefix = (radix = None \<or> radix = Some 16);
          hex = (stripPrefix \<and> (take 2 s2 = ''0x'' \<or> take 2 s2 = ''0X''));
          r = (if hex then 16 else case radix of None \<Rightarrow> 10 | Some k \<Rightarrow> k);
          s3 = (if hex then drop 2 s2 else s2);
          z = takeWhile (is_digit r) s3
      in if z = [] then None
         else Some (if neg then - int (digits_value r z) else int (digits_value r z)))"

definition parseInt :: "string \<Rightarrow> int option" where
  "parseInt s = parseInt_radix s None"

text \<open>\<open>a === b\<close> on numbers: \<open>NaN\<close> equals nothing.\<close>

definition num_eq :: "int option \<Rightarrow> int option \<Rightarrow> bool" where
  "num_eq a b = (case a of None \<Rightarrow> False | Some x \<Rightarrow> (case b of None \<Rightarrow> False | Some y \<Rightarrow> x = y))"

definition num_plus1 :: "int option \<Rightarrow> int option" where
  "num_plus1 a = map_option (\<lambda>x. x + 1) a"

section \<open>The editing session: document, history, notifications\<close>

text \<open>
  The state of \<open>FunnelProvider\<close>: the document, the two history stacks, the active page and
  the toast.  State updates are taken in order, each operation working on the state left by
  the one before it.
\<close>

datatype notification_type = success | error | warning | info

record 'c store =
  config :: 'c
  past :: "'c list"
  future :: "'c list"
  activePageId :: string
  notification :: "(string \<times> notification_type) option"

definition MAX_HISTORY :: nat where
  "MAX_HISTORY = 50"

text \<open>\<open>xs.slice(-n)\<close>: the last \<open>n\<close> elements.\<close>

definition slice_last :: "nat \<Rightarrow> 'a list \<Rightarrow> 'a list" where
  "slice_last n xs = drop (length xs - n) xs"

text \<open>
  \<open>setConfig\<close>: every mutation goes through it.  The updater is applied to the current
  document, the previous document is pushed on \<open>past\<close> (capped) and \<open>future\<close> is cleared.
\<close>

definition setConfig :: "('c \<Rightarrow> 'c) \<Rightarrow> 'c store \<Rightarrow> 'c store" where
  "setConfig newConfig st =
     (let prevConfig = config st;
          nextConfig = newConfig prevConfig
      in st\<lparr>config := nextConfig,
            past := slice_last MAX_HISTORY (past st @ [prevConfig]),
            future := []\<rparr>)"

definition undo :: "'c store \<Rightarrow> 'c store" where
  "undo st =
     (if past st = [] then st
      else let previous = last (past st);
               newPast = butlast (past st)
           in st\<lparr>past := newPast, future := config st # future st, config := previous\<rparr>)"

definition redo :: "'c store \<Rightarrow> 'c store" where
  "redo st =
     (if future st = [] then st
      else let next = hd (future st);
               newFuture = tl (future st)
           in st\<lparr>past := past st @ [config st], future := newFuture, config := next\<rparr>)"

definition notify :: "string \<Rightarrow> notification_type \<Rightarrow> 'c store \<Rightarrow> 'c store" where
  "notify message t st = st\<lparr>notification := Some (message, t)\<rparr>"

definition setActivePageId :: "string \<Rightarrow> 'c store \<Rightarrow> 'c store" where
  "setActivePageId pid st = st\<lparr>activePageId := pid\<rparr>"

text \<open>A sequence of top-level mutations, applied in order.\<close>

definition mutations :: "('c \<Rightarrow> 'c) list \<Rightarrow> 'c store \<Rightarrow> 'c store" where
  "mutations fs st = fold setConfig fs st"


section \<open>The funnel graph\<close>

text \<open>
  \<open>PageConfig\<close>, the routing entries and \<open>FunnelConfig\<close> of \<open>types.ts\<close>.  Fields that no
  modelled function reads are kept together as one JSON object (\<open>page_rest\<close>: meta,
  tracking events, header and footer flags; \<open>event_rest\<close>: answer key, broadcast, scroll,
  checkout; \<open>cond_rest\<close>: operator and value; \<open>config_rest\<close>: id, name, brand, version,
  layout, broadcast targets and split test).
\<close>

record page =
  name :: string
  path :: string
  template :: string
  template_data :: "json obj"
  page_rest :: "json obj"

record condition =
  cond_field :: "string option"
  target :: "string option"
  cond_rest :: "json obj"

record route =
  to :: "string option"
  conditions :: "condition list option"

record event =
  route :: "route option"
  event_rest :: "json obj"

datatype 'n node_children = NodeList "'n list" | DataRef string

datatype node =
  Node (component: "string option") (node_type: "string option")
       (props: "json obj option") (children: "node node_children option")

record theme =
  colors :: "string obj"
  fonts :: "string obj"
  theme_rest :: "json obj"

record funnel_config =
  templates :: "node obj"
  pages :: "page obj"
  theme :: theme
  event_routing :: "event obj"
  config_rest :: "json obj"

subsection \<open>Path Reindexer\<close>

text \<open>\<open>reindexPages\<close>: the page at index \<open>i\<close> of \<open>Object.keys(pages)\<close> gets path \<open>i + 1\<close>.\<close>

definition reindexPages :: "page obj \<Rightarrow> page obj" where
  "reindexPages pgs =
     map (\<lambda>(index, key, p). (key, p\<lparr>path := int_toString (int index + 1)\<rparr>)) (enumerate 0 pgs)"

subsection \<open>Route Migrator\<close>

text \<open>
  \<open>buildEventOwnerMap\<close>: every string value of a page's template data that is the name
  of a routing entry records that page as the event's owner; a later page overwrites an
  earlier one.
\<close>

definition buildEventOwnerMap :: "page obj \<Rightarrow> event obj \<Rightarrow> string obj" where
  "buildEventOwnerMap pgs routing =
     foldl (\<lambda>ownerMap (pageKey, p).
         foldl (\<lambda>om val.
             case val of
               JStr s \<Rightarrow> if s \<in> set (map fst routing) then obj_set s pageKey om else om
             | _ \<Rightarrow> om)
           ownerMap (map snd (template_data p)))
       [] pgs"

text \<open>
  The map from old path to new path, for every page whose key is in both collections and
  whose path changed.
\<close>

definition buildPathMap :: "page obj \<Rightarrow> page obj \<Rightarrow> string obj" where
  "buildPathMap oldPages newPages =
     foldl (\<lambda>pathMap (key, oldPage).
         case obj_get newPages key of
           None \<Rightarrow> pathMap
         | Some newPage \<Rightarrow>
             if path oldPage \<noteq> path newPage then obj_set (path oldPage) (path newPage) pathMap
             else pathMap)
       [] oldPages"

text \<open>\<open>pathMap[k]\<close> when it is truthy (a non-empty string).\<close>

definition pathMap_get :: "string obj \<Rightarrow> string \<Rightarrow> string option" where
  "pathMap_get pathMap k =
     (case obj_get pathMap k of None \<Rightarrow> None | Some v \<Rightarrow> if v = [] then None else Some v)"

definition migrateCondition :: "string obj \<Rightarrow> condition \<Rightarrow> condition" where
  "migrateCondition pathMap cond =
     (case target cond of
        None \<Rightarrow> cond
      | Some t \<Rightarrow>
          if t = [] then cond
          else (case pathMap_get pathMap t of
                  None \<Rightarrow> cond
                | Some v \<Rightarrow> cond\<lparr>target := Some v\<rparr>))"

text \<open>
  The path of the page that owns an event, in a given collection: \<open>null\<close> without an owner
  (or with the empty key, which is falsy), \<open>undefined\<close> when the collection has no such page.
\<close>

definition ownerPath :: "string option \<Rightarrow> page obj \<Rightarrow> string option" where
  "ownerPath ownerPageKey pgs =
     (case ownerPageKey of
        None \<Rightarrow> None
      | Some k \<Rightarrow> if k = [] then None else map_option path (obj_get pgs k))"

text \<open>
  The test of the Route Migrator for "this route went to the owner's next page", with the
  owner's old path if the event has an owner.
\<close>

definition wasSequential :: "string option \<Rightarrow> string \<Rightarrow> bool" where
  "wasSequential ownerOldPath oldRouteTo =
     (case ownerOldPath of
        None \<Rightarrow> False
      | Some p \<Rightarrow> num_eq (parseInt oldRouteTo) (num_plus1 (parseInt p)))"

text \<open>
  The body of the loop over the routing entries: the rewritten entry and what it adds to
  \<open>sequentialCount\<close> and \<open>customCount\<close>.  An entry without a truthy \<open>route.to\<close> is skipped
  altogether (\<open>continue\<close>), its conditions included.
\<close>

definition migrateEvent ::
  "string obj \<Rightarrow> string obj \<Rightarrow> page obj \<Rightarrow> page obj \<Rightarrow> string \<Rightarrow> event \<Rightarrow> event \<times> nat \<times> nat" where
  "migrateEvent pathMap eventOwnerMap oldPages newPages eventName ev =
     (case route ev of
        None \<Rightarrow> (ev, 0, 0)
      | Some r \<Rightarrow>
        (case to r of
           None \<Rightarrow> (ev, 0, 0)
         | Some oldRouteTo \<Rightarrow>
             if oldRouteTo = [] then (ev, 0, 0)
             else
               let ownerPageKey = obj_get eventOwnerMap eventName;
                   ownerOldPath = ownerPath ownerPageKey oldPages;
                   ownerNewPath = ownerPath ownerPageKey newPages;
                   (newTo, s, c) =
                     (case (wasSequential ownerOldPath oldRouteTo, ownerNewPath) of
                        (True, Some q) \<Rightarrow> (num_toString (num_plus1 (parseInt q)), 1, 0)
                      | _ \<Rightarrow>
                          (case pathMap_get pathMap oldRouteTo of
                             Some v \<Rightarrow> (v, 0, 1)
                           | None \<Rightarrow> (oldRouteTo, 0, 0)));
                   newConditions = map_option (map (migrateCondition pathMap)) (conditions r)
               in (ev\<lparr>route := Some (r\<lparr>to := Some newTo, conditions := newConditions\<rparr>)\<rparr>, s, c)))"

fun migrateLoop ::
  "string obj \<Rightarrow> string obj \<Rightarrow> page obj \<Rightarrow> page obj \<Rightarrow> event obj \<Rightarrow> event obj \<times> nat \<times> nat" where
  "migrateLoop pathMap eventOwnerMap oldPages newPages [] = ([], 0, 0)"
| "migrateLoop pathMap eventOwnerMap oldPages newPages ((eventName, ev) # rest) =
     (let (ev', s, c) = migrateEvent pathMap eventOwnerMap oldPages newPages eventName ev;
          (rest', sequentialCount, customCount) = migrateLoop pathMap eventOwnerMap oldPages newPages rest
      in ((eventName, ev') # rest', s + sequentialCount, c + customCount))"

record migration =
  routing :: "event obj"
  sequentialCount :: nat
  customCount :: nat

definition reindexEventRouting :: "page obj \<Rightarrow> page obj \<Rightarrow> event obj \<Rightarrow> migration" where
  "reindexEventRouting oldPages newPages rt =
     (let pathMap = buildPathMap oldPages newPages
      in if pathMap = [] \<and> rt = [] then \<lparr>routing = rt, sequentialCount = 0, customCount = 0\<rparr>
         else
           let eventOwnerMap = buildEventOwnerMap oldPages rt;
               (newRouting, s, c) = migrateLoop pathMap eventOwnerMap oldPages newPages rt
           in \<lparr>routing = newRouting, sequentialCount = s, customCount = c\<rparr>)"

section \<open>Structural edits\<close>

type_synonym session = "funnel_config store"

definition addPage :: "string \<Rightarrow> page \<Rightarrow> session \<Rightarrow> session" where
  "addPage pageId newConfig st =
     setActivePageId pageId
       (setConfig (\<lambda>prev.
            let updatedPages = obj_set pageId newConfig (pages prev);
                reindexed = reindexPages updatedPages;
                updatedRouting = routing (reindexEventRouting (pages prev) reindexed (event_routing prev))
            in prev\<lparr>pages := reindexed, event_routing := updatedRouting\<rparr>)
          st)"

text \<open>\<open>entries.findIndex(([key]) => key === pageId)\<close> for a key that is present.\<close>

definition findIndex :: "string \<Rightarrow> 'v obj \<Rightarrow> nat" where
  "findIndex k es = length (takeWhile (\<lambda>e. fst e \<noteq> k) es)"

text \<open>
  \<open>duplicatePage\<close>; \<open>now\<close> is the value of \<open>Date.now()\<close> that makes the key of the copy.
\<close>

definition duplicatePage :: "nat \<Rightarrow> string \<Rightarrow> session \<Rightarrow> session" where
  "duplicatePage now pageId st =
     (case obj_get (pages (config st)) pageId of
        None \<Rightarrow> st
      | Some pageToClone \<Rightarrow>
          let newId = pageId @ ''-copy-'' @ int_toString (int now);
              newPage = pageToClone\<lparr>name := name pageToClone @ '' (Copy)''\<rparr>;
              pageEntries = pages (config st);
              index = findIndex pageId pageEntries;
              newEntries = take (index + 1) pageEntries @ [(newId, newPage)] @ drop (index + 1) pageEntries;
              newPagesRaw = fromEntries newEntries;
              reindexed = reindexPages newPagesRaw
          in setActivePageId newId
               (setConfig (\<lambda>prev.
                    let updatedRouting =
                          routing (reindexEventRouting (pages prev) reindexed (event_routing prev))
                    in prev\<lparr>pages := reindexed, event_routing := updatedRouting\<rparr>)
                  st))"

text \<open>The toast of \<open>reorderPages\<close>, shown when a route was rewritten.\<close>

definition routing_summary :: "nat \<Rightarrow> nat \<Rightarrow> string" where
  "routing_summary seqCount custCount =
     (let p1 = (if seqCount > 0
                then [int_toString (int seqCount) @ '' route'' @ (if seqCount > 1 then ''s'' else '''')
                      @ '' follow new order'']
                else []);
          p2 = (if custCount > 0
                then [int_toString (int custCount) @ '' custom route'' @ (if custCount > 1 then ''s'' else '''')
                      @ '' preserved'']
                else []);
          parts = p1 @ p2
      in ''Routing updated: '' @ (case parts of [] \<Rightarrow> '''' | [a] \<Rightarrow> a | a # b # _ \<Rightarrow> a @ '', '' @ b))"

definition reorderPages :: "string list \<Rightarrow> session \<Rightarrow> session" where
  "reorderPages newOrder st =
     (let prev = config st;
          newPagesRaw = foldl (\<lambda>acc key.
              case obj_get (pages prev) key of
                None \<Rightarrow> acc
              | Some p \<Rightarrow> obj_set key p acc) [] newOrder;
          reindexed = reindexPages newPagesRaw;
          m = reindexEventRouting (pages prev) reindexed (event_routing prev);
          st1 = setConfig (\<lambda>prev. prev\<lparr>pages := reindexed, event_routing := routing m\<rparr>) st
      in if sequentialCount m > 0 \<or> customCount m > 0
         then notify (routing_summary (sequentialCount m) (customCount m)) info st1
         else st1)"

text \<open>
  \<open>deletePage\<close>: nothing happens for an unknown page; the last page is kept and a
  warning is shown; otherwise the page is removed, the rest is reindexed and the routes
  are migrated in one \<open>setConfig\<close>.
\<close>

definition deletePage :: "string \<Rightarrow> session \<Rightarrow> session" where
  "deletePage pageId st =
     (let pageKeys = map fst (pages (config st))
      in if pageId \<notin> set pageKeys then st
         else if length pageKeys \<le> 1 then notify ''Cannot delete the last page.'' warning st
         else
           let nextIdToActivate =
                 (if activePageId st = pageId
                  then let currentIndex = length (takeWhile (\<lambda>k. k \<noteq> pageId) pageKeys)
                       in if currentIndex > 0 then pageKeys ! (currentIndex - 1)
                          else pageKeys ! (currentIndex + 1)
                  else activePageId st);
               st1 = setConfig (\<lambda>prev.
                   let remainingPagesEntries = filter (\<lambda>(key, p). key \<noteq> pageId) (pages prev);
                       remainingPagesObj = fromEntries remainingPagesEntries;
                       reindexed = reindexPages remainingPagesObj;
                       updatedRouting =
                         routing (reindexEventRouting (pages prev) reindexed (event_routing prev))
                   in prev\<lparr>pages := reindexed, event_routing := updatedRouting\<rparr>) st
           in notify ''Page deleted.'' info (setActivePageId nextIdToActivate st1))"

text \<open>
  The page collection that \<open>deletePage\<close> installs: the entries other than the deleted one,
  rebuilt as an object and reindexed.
\<close>

definition deleted_pages :: "string \<Rightarrow> page obj \<Rightarrow> page obj" where
  "deleted_pages pageId pgs = reindexPages (fromEntries (filter (\<lambda>(key, p). key \<noteq> pageId) pgs))"

text \<open>The four structural edits, as one type of operation.\<close>

datatype edit =
    AddPage string page
  | DuplicatePage nat string
  | ReorderPages "string list"
  | DeletePage string

fun apply_edit :: "edit \<Rightarrow> session \<Rightarrow> session" where
  "apply_edit (AddPage pageId newConfig) st = addPage pageId newConfig st"
| "apply_edit (DuplicatePage now pageId) st = duplicatePage now pageId st"
| "apply_edit (ReorderPages newOrder) st = reorderPages newOrder st"
| "apply_edit (DeletePage pageId) st = deletePage pageId st"

text \<open>The paths of a collection, in collection order.\<close>

definition page_paths :: "page obj \<Rightarrow> string list" where
  "page_paths pgs = map (\<lambda>(key, p). path p) pgs"

text \<open>The strings \<open>"1"\<close>, ..., \<open>"n"\<close>.\<close>

definition paths_upto :: "nat \<Rightarrow> string list" where
  "paths_upto n = map (\<lambda>i. int_toString (int i + 1)) [0..<n]"

text \<open>The path invariant: the paths are \<open>"1"\<close>, ..., \<open>"N"\<close> in collection order.\<close>

definition paths_ok :: "page obj \<Rightarrow> bool" where
  "paths_ok pgs = (page_paths pgs = paths_upto (length pgs))"

section \<open>Validator\<close>

datatype issue_type = IssueError | IssueWarning

text \<open>\<open>ValidationError\<close>: \<open>{ type, field, message, pageId? }\<close>.\<close>

record validation_error =
  vtype :: issue_type
  vfield :: string
  vmessage :: string
  vpageId :: "string option"

definition dquote :: string where
  "dquote = [CHR 0x22]"

text \<open>\<open>xs.join(',')\<close> for a list of numbers.\<close>

fun join_numbers :: "int list \<Rightarrow> string" where
  "join_numbers [] = []"
| "join_numbers [x] = int_toString x"
| "join_numbers (x # y # ys) = int_toString x @ '','' @ join_numbers (y # ys)"

text \<open>Check 1: every page has a numeric path, and the paths are 1..N in some order.\<close>

definition path_issue :: "string \<times> page \<Rightarrow> validation_error list" where
  "path_issue = (\<lambda>(pid, p).
     if path p = [] then [\<lparr>vtype = IssueError, vfield = ''path'', vmessage = ''Missing path'', vpageId = Some pid\<rparr>]
     else (case parseInt_radix (path p) (Some 10) of
             None \<Rightarrow> [\<lparr>vtype = IssueError, vfield = ''path'',
                       vmessage = ''Non-numeric path: '' @ dquote @ path p @ dquote, vpageId = Some pid\<rparr>]
           | Some pathNum \<Rightarrow> []))"

definition numeric_paths :: "page obj \<Rightarrow> int list" where
  "numeric_paths pgs =
     concat (map (\<lambda>(pid, p).
        if path p = [] then []
        else (case parseInt_radix (path p) (Some 10) of None \<Rightarrow> [] | Some pathNum \<Rightarrow> [pathNum])) pgs)"

definition sequence_issue :: "page obj \<Rightarrow> validation_error list" where
  "sequence_issue pgs =
     (let paths = numeric_paths pgs;
          sortedPaths = sort paths;
          expected = map (\<lambda>i. int i + 1) [0..<length paths]
      in if sortedPaths \<noteq> expected
         then [\<lparr>vtype = IssueError, vfield = ''paths'',
                vmessage = ''Path sequence broken: ['' @ join_numbers sortedPaths @ ''] vs expected [''
                          @ join_numbers expected @ '']'',
                vpageId = None\<rparr>]
         else [])"

text \<open>Check 2: the template of every page exists; a page should have a name.\<close>

definition template_issue :: "node obj \<Rightarrow> string \<times> page \<Rightarrow> validation_error list" where
  "template_issue tpls = (\<lambda>(pid, p).
     (if template p = [] then
        [\<lparr>vtype = IssueError, vfield = ''template'', vmessage = ''Missing template'', vpageId = Some pid\<rparr>]
      else if obj_get tpls (template p) = None then
        [\<lparr>vtype = IssueError, vfield = ''template'',
          vmessage = ''Template '' @ dquote @ template p @ dquote @ '' not found in templates'',
          vpageId = Some pid\<rparr>]
      else [])
     @ (if name p = [] then
          [\<lparr>vtype = IssueWarning, vfield = ''name'', vmessage = ''Missing page name'', vpageId = Some pid\<rparr>]
        else []))"

text \<open>Check 3: every \<open>route.to\<close> and every condition target is the path of a page.\<close>

definition dangling_message :: "string \<Rightarrow> string \<Rightarrow> string" where
  "dangling_message eventName tgt =
     ''Event '' @ dquote @ eventName @ dquote @ '' routes to non-existent path: '' @ dquote @ tgt @ dquote"

definition dangling_issue :: "string \<Rightarrow> string \<Rightarrow> validation_error" where
  "dangling_issue eventName tgt =
     \<lparr>vtype = IssueError, vfield = ''event_routing'', vmessage = dangling_message eventName tgt,
      vpageId = None\<rparr>"

definition route_to_issue :: "string list \<Rightarrow> string \<times> event \<Rightarrow> validation_error list" where
  "route_to_issue validPaths = (\<lambda>(eventName, ev).
     (case route ev of
        None \<Rightarrow> []
      | Some r \<Rightarrow>
          (case to r of
             None \<Rightarrow> []
           | Some tgt \<Rightarrow>
               if tgt \<noteq> [] \<and> tgt \<notin> set validPaths
               then [dangling_issue eventName tgt]
               else [])))"

definition condition_target_message :: "string \<Rightarrow> nat \<Rightarrow> string \<Rightarrow> string" where
  "condition_target_message eventName idx tgt =
     ''Event '' @ dquote @ eventName @ dquote @ '' condition #'' @ int_toString (int idx + 1)
     @ '' routes to non-existent path: '' @ dquote @ tgt @ dquote"

definition condition_issue :: "string list \<Rightarrow> string \<Rightarrow> nat \<times> condition \<Rightarrow> validation_error list" where
  "condition_issue validPaths eventName = (\<lambda>(idx, cond).
     (case target cond of
        None \<Rightarrow> []
      | Some tgt \<Rightarrow>
          if tgt \<noteq> [] \<and> tgt \<notin> set validPaths
          then [\<lparr>vtype = IssueError, vfield = ''event_routing'',
                 vmessage = condition_target_message eventName idx tgt,
                 vpageId = None\<rparr>]
          else [])
     @ (if cond_field cond = None \<or> cond_field cond = Some [] then
          [\<lparr>vtype = IssueWarning, vfield = ''event_routing'',
            vmessage = ''Event '' @ dquote @ eventName @ dquote @ '' condition #'' @ int_toString (int idx + 1)
                      @ '' has no field specified'',
            vpageId = None\<rparr>]
        else []))"

definition conditions_issues :: "string list \<Rightarrow> string \<times> event \<Rightarrow> validation_error list" where
  "conditions_issues validPaths = (\<lambda>(eventName, ev).
     (case route ev of
        None \<Rightarrow> []
      | Some r \<Rightarrow>
          (case conditions r of
             None \<Rightarrow> []
           | Some conds \<Rightarrow> concat (map (condition_issue validPaths eventName) (enumerate 0 conds)))))"

definition routing_issues :: "page obj \<Rightarrow> event obj \<Rightarrow> validation_error list" where
  "routing_issues pgs rt =
     (let validPaths = page_paths pgs
      in concat (map (\<lambda>entry. route_to_issue validPaths entry @ conditions_issues validPaths entry) rt))"

text \<open>Check 4: an \<open>_on_...\<close> value of a page names an existing routing entry.\<close>

definition startsWith :: "string \<Rightarrow> string \<Rightarrow> bool" where
  "startsWith s pre = (take (length pre) s = pre)"

definition event_ref_issue :: "event obj \<Rightarrow> string \<times> page \<Rightarrow> validation_error list" where
  "event_ref_issue rt = (\<lambda>(pid, p).
     concat (map (\<lambda>(key, val).
        (case val of
           JStr s \<Rightarrow>
             if startsWith key ''_on_'' \<and> s \<noteq> [] \<and> obj_get rt s = None
             then [\<lparr>vtype = IssueWarning, vfield = key,
                    vmessage = ''References event '' @ dquote @ s @ dquote @ '' not found in event_routing'',
                    vpageId = Some pid\<rparr>]
             else []
         | _ \<Rightarrow> [])) (template_data p)))"

text \<open>Check 5: a page has a title or HTML content.\<close>

definition falsy_at :: "json obj \<Rightarrow> string \<Rightarrow> bool" where
  "falsy_at td k = (case obj_get td k of None \<Rightarrow> True | Some v \<Rightarrow> \<not> truthy v)"

definition content_issue :: "string \<times> page \<Rightarrow> validation_error list" where
  "content_issue = (\<lambda>(pid, p).
     if falsy_at (template_data p) ''_title_text'' \<and> falsy_at (template_data p) ''_html''
        \<and> falsy_at (template_data p) ''_html_title''
     then [\<lparr>vtype = IssueWarning, vfield = ''_title_text'', vmessage = ''No title or HTML content'',
            vpageId = Some pid\<rparr>]
     else [])"

text \<open>Check 6: theme tokens.  Check 7: a stale template-preview page.\<close>

definition missing_color :: "theme \<Rightarrow> string \<Rightarrow> bool" where
  "missing_color th k = (case obj_get (colors th) k of None \<Rightarrow> True | Some c \<Rightarrow> c = [])"

definition theme_issues :: "theme \<Rightarrow> validation_error list" where
  "theme_issues th =
     (if missing_color th ''primary'' then
        [\<lparr>vtype = IssueWarning, vfield = ''theme.colors.primary'', vmessage = ''Missing primary color'',
          vpageId = None\<rparr>] else [])
     @ (if missing_color th ''background'' then
        [\<lparr>vtype = IssueWarning, vfield = ''theme.colors.background'', vmessage = ''Missing background color'',
          vpageId = None\<rparr>] else [])
     @ (if fonts th = [] then
        [\<lparr>vtype = IssueWarning, vfield = ''theme.fonts'', vmessage = ''No fonts defined'', vpageId = None\<rparr>]
        else [])"

definition preview_issue :: "page obj \<Rightarrow> validation_error list" where
  "preview_issue pgs =
     (if obj_get pgs ''__template_preview__'' \<noteq> None then
        [\<lparr>vtype = IssueWarning, vfield = ''pages'',
          vmessage = ''Stale template preview page found - will be removed on export'', vpageId = None\<rparr>]
      else [])"

definition validateConfig :: "funnel_config \<Rightarrow> validation_error list" where
  "validateConfig cfg =
     concat (map path_issue (pages cfg)) @ sequence_issue (pages cfg)
     @ concat (map (template_issue (templates cfg)) (pages cfg))
     @ routing_issues (pages cfg) (event_routing cfg)
     @ concat (map (event_ref_issue (event_routing cfg)) (pages cfg))
     @ concat (map content_issue (pages cfg))
     @ theme_issues (theme cfg)
     @ preview_issue (pages cfg)"

section \<open>Import\<close>

text \<open>
  \<open>loadConfig\<close> works on whatever JSON the file holds, so here the document of the session
  is a \<open>json\<close> value.  \<open>JSON.parse\<close> is not modelled: the function takes its result,
  \<open>None\<close> when it throws.
\<close>

text \<open>\<open>x[k]\<close> for a named property \<open>k\<close> of a value that is not \<open>null\<close>.\<close>

definition get_prop :: "json \<Rightarrow> string \<Rightarrow> json option" where
  "get_prop j k = (case j of JObj ps \<Rightarrow> obj_get ps k | JArr xs ps \<Rightarrow> obj_get ps k | _ \<Rightarrow> None)"

text \<open>\<open>x[k] = v\<close> on an object or an array.\<close>

definition set_prop :: "string \<Rightarrow> json \<Rightarrow> json \<Rightarrow> json" where
  "set_prop k v j =
     (case j of JObj ps \<Rightarrow> JObj (obj_set k v ps) | JArr xs ps \<Rightarrow> JArr xs (obj_set k v ps) | _ \<Rightarrow> j)"

definition prop_truthy :: "json \<Rightarrow> string \<Rightarrow> bool" where
  "prop_truthy j k = (case get_prop j k of None \<Rightarrow> False | Some v \<Rightarrow> truthy v)"

text \<open>\<open>x && typeof x === 'object'\<close>.\<close>

definition is_obj :: "json \<Rightarrow> bool" where
  "is_obj j = (case j of JObj ps \<Rightarrow> True | JArr xs ps \<Rightarrow> True | _ \<Rightarrow> False)"

text \<open>\<open>x[k] && typeof x[k] === 'object'\<close>.\<close>

definition is_object_prop :: "json \<Rightarrow> string \<Rightarrow> bool" where
  "is_object_prop j k = (case get_prop j k of None \<Rightarrow> False | Some v \<Rightarrow> is_obj v)"

text \<open>\<open>Object.keys\<close>: the indices of an array come first.\<close>

definition keys_of :: "json \<Rightarrow> string list" where
  "keys_of j =
     (case j of
        JObj ps \<Rightarrow> map fst ps
      | JArr xs ps \<Rightarrow> map (\<lambda>i. int_toString (int i)) [0..<length xs] @ map fst ps
      | _ \<Rightarrow> [])"

fun join_strings :: "string list \<Rightarrow> string" where
  "join_strings [] = []"
| "join_strings [x] = x"
| "join_strings (x # y # ys) = x @ '','' @ join_strings (y # ys)"

text \<open>\<open>String(x)\<close>, as a template literal applies it.\<close>

fun js_toString :: "json \<Rightarrow> string" where
  "js_toString JNull = ''null''"
| "js_toString (JBool b) = (if b then ''true'' else ''false'')"
| "js_toString (JNum n) = int_toString n"
| "js_toString (JStr s) = s"
| "js_toString (JArr xs ps) = join_strings (map (\<lambda>x. if x = JNull then [] else js_toString x) xs)"
| "js_toString (JObj ps) = ''[object Object]''"

definition theme_sections :: "string list" where
  "theme_sections = [''colors'', ''fonts'', ''spacing'', ''border_radius'', ''width'', ''border'']"

definition default_layout :: json where
  "default_layout =
     JObj [(''header'', JObj [(''template'', JStr ''header''), (''template_data'', JObj [])]),
           (''footer'', JObj [(''template'', JStr ''footer''), (''template_data'', JObj [])])]"

text \<open>\<open>if (!x[k]) x[k] = d\<close>.\<close>

definition backfill :: "json \<Rightarrow> string \<Rightarrow> json \<Rightarrow> json" where
  "backfill d k x = (if prop_truthy x k then x else set_prop k d x)"

text \<open>The document after the defaults were filled in; the theme is changed in place.\<close>

definition with_defaults :: "json \<Rightarrow> json" where
  "with_defaults j =
     (case get_prop j ''theme'' of
        None \<Rightarrow> j
      | Some th \<Rightarrow>
          backfill default_layout ''layout''
            (set_prop ''theme'' (foldl (\<lambda>t k. backfill (JObj []) k t) th theme_sections) j))"

definition loaded_message :: "string \<Rightarrow> json \<Rightarrow> string" where
  "loaded_message fileName j =
     ''Config loaded: ''
     @ (case get_prop j ''name'' of
          None \<Rightarrow> fileName
        | Some v \<Rightarrow> if truthy v then js_toString v else fileName)
     @ '' (v''
     @ (case get_prop j ''version'' of
          None \<Rightarrow> ''?''
        | Some v \<Rightarrow> if truthy v then js_toString v else ''?'')
     @ '')''"

definition missing_message :: "string \<Rightarrow> string" where
  "missing_message section_name =
     ''Invalid config: missing '' @ [CHR 0x27] @ section_name @ [CHR 0x27] @ '' object.''"

definition loadConfig :: "string \<Rightarrow> json option \<Rightarrow> json store \<Rightarrow> json store" where
  "loadConfig fileName parsed st =
     (case parsed of
        None \<Rightarrow> notify ''Error parsing JSON file. Check the file format.'' error st
      | Some JNull \<Rightarrow> notify ''Error parsing JSON file. Check the file format.'' error st
      | Some j \<Rightarrow>
          if \<not> is_object_prop j ''pages'' then notify (missing_message ''pages'') error st
          else if \<not> is_object_prop j ''theme'' then notify (missing_message ''theme'') error st
          else if \<not> is_object_prop j ''templates'' then notify (missing_message ''templates'') error st
          else
            let j' = with_defaults j;
                st1 = st\<lparr>config := j', past := [], future := []\<rparr>;
                st2 = (case get_prop j' ''pages'' of
                         None \<Rightarrow> st1
                       | Some pgs \<Rightarrow>
                           (case keys_of pgs of
                              [] \<Rightarrow> st1
                            | firstKey # _ \<Rightarrow> if firstKey \<noteq> [] then setActivePageId firstKey st1 else st1))
            in notify (loaded_message fileName j') success st2)"

text \<open>A document has its three required sections.\<close>

definition has_required_sections :: "json \<Rightarrow> bool" where
  "has_required_sections j =
     (j \<noteq> JNull \<and> is_object_prop j ''pages'' \<and> is_object_prop j ''theme'' \<and> is_object_prop j ''templates'')"

section \<open>Rendering Engine\<close>

text \<open>
  \<open>RecursiveRenderer\<close> looks the node's kind name up in \<open>COMPONENT_REGISTRY\<close>, a plain
  object, so the lookup also finds the members that every object inherits from
  \<open>Object.prototype\<close>, all of them truthy.  It returns a React element: \<open>null\<close>, the red
  "Unknown" box, or the component that was found, applied to the resolved props, the theme
  and the children.  Child nodes are passed on as \<open>RecursiveRenderer\<close> elements that are not
  rendered yet; React renders them if and when the component puts its children in its
  output.
\<close>

definition COMPONENT_REGISTRY :: "string list" where
  "COMPONENT_REGISTRY =
     [''Page'', ''Box'', ''Gap'', ''Divider'', ''Text'', ''Title'', ''Subtitle'', ''RichText'', ''ImageBox'',
      ''Button'', ''ItemPicker'', ''FocusAreas'', ''UnitToggle'', ''LengthInput'', ''WeightInput'',
      ''NumericInput'', ''DatePicker'', ''TextInput'', ''NotificationCard'', ''LinksBox'',
      ''PageProgressBar'', ''AnimatedChart'', ''Checkout'', ''Countdown'', ''Carousel'', ''BmiChart'',
      ''BmiReport'', ''BmiNotification'', ''GoalNotification'', ''WeightLossChart'']"

definition object_prototype_names :: "string list" where
  "object_prototype_names =
     [''constructor'', ''toString'', ''toLocaleString'', ''valueOf'', ''hasOwnProperty'',
      ''isPrototypeOf'', ''propertyIsEnumerable'', ''__proto__'', ''__defineGetter__'',
      ''__defineSetter__'', ''__lookupGetter__'', ''__lookupSetter__'']"

text \<open>What a lookup finds: a component of the registry or a member of \<open>Object.prototype\<close>.\<close>

datatype component = Own string | Inherited string

text \<open>\<open>COMPONENT_REGISTRY[componentName]\<close>, \<open>None\<close> for \<open>undefined\<close>.\<close>

definition registry_get :: "string \<Rightarrow> component option" where
  "registry_get c =
     (if c \<in> set COMPONENT_REGISTRY then Some (Own c)
      else if c \<in> set object_prototype_names then Some (Inherited c)
      else None)"

text \<open>
  \<open>resolveProp\<close>: a string that starts with an underscore is looked up in the data
  (\<open>null\<close> without data or without the key); anything else is returned as it is.
\<close>

definition resolveProp :: "json \<Rightarrow> json obj option \<Rightarrow> json" where
  "resolveProp val data =
     (case val of
        JStr s \<Rightarrow>
          if startsWith s ''_'' then
            (case data of
               None \<Rightarrow> JNull
             | Some d \<Rightarrow> (case obj_get d s of None \<Rightarrow> JNull | Some v \<Rightarrow> v))
          else val
      | _ \<Rightarrow> val)"

definition resolveProps :: "json obj option \<Rightarrow> json obj option \<Rightarrow> json obj" where
  "resolveProps ps data =
     (case ps of
        None \<Rightarrow> []
      | Some entries \<Rightarrow>
          foldl (\<lambda>resolved (key, val). obj_set key (resolveProp val data) resolved) [] entries)"

text \<open>
  The children handed to the component: nothing, one \<open>RecursiveRenderer\<close> element per child
  node (each with the same data and theme, not rendered yet), or the raw data that a data
  key resolves to.
\<close>

datatype children_prop =
    NoChildren
  | ChildElements "json obj option" theme "node list"
  | RawData json

datatype element =
    NullElement
  | UnknownBox string
  | ComponentElement component "json obj" theme children_prop

text \<open>\<open>node.component || node.type\<close>, when it is truthy.\<close>

definition componentName :: "node \<Rightarrow> string option" where
  "componentName n =
     (case (case component n of
              None \<Rightarrow> node_type n
            | Some c \<Rightarrow> if c \<noteq> [] then Some c else node_type n) of
        None \<Rightarrow> None
      | Some c \<Rightarrow> if c \<noteq> [] then Some c else None)"

definition RecursiveRenderer :: "json obj option \<Rightarrow> theme \<Rightarrow> node \<Rightarrow> element" where
  "RecursiveRenderer data th n =
     (case componentName n of
        None \<Rightarrow> NullElement
      | Some c \<Rightarrow>
          (case registry_get c of
             None \<Rightarrow> UnknownBox c
           | Some Component \<Rightarrow>
               let resolvedProps = resolveProps (props n) data;
                   kids =
                     (case children n of
                        None \<Rightarrow> NoChildren
                      | Some (NodeList cs) \<Rightarrow> ChildElements data th cs
                      | Some (DataRef s) \<Rightarrow>
                          if s = [] then NoChildren else RawData (resolveProp (JStr s) data))
               in ComponentElement Component resolvedProps th kids))"

subsection \<open>What React shows\<close>

text \<open>
  Of the registered components only \<open>Page\<close> and \<open>Box\<close> put \<open>{children}\<close> in their output;
  every other one renders from its props alone (\<open>LinksBox\<close> reads its children as data).
  The output of those other components, and what React makes of a member of
  \<open>Object.prototype\<close> used as a component, is a parameter \<open>body\<close>: it gives the output or
  the failure of the component for its props, theme and children.  A failure anywhere
  fails the whole rendering.  \<open>Page\<close> and \<open>Box\<close> themselves read \<open>theme.width\<close>,
  \<open>theme.spacing\<close> and \<open>theme.colors\<close>, which every \<open>ThemeConfig\<close> has.
\<close>

datatype render_error = InvalidChild | ComponentFailed string

datatype 'o view =
    Blank
  | TextView string
  | UnknownView string
  | Container string "json obj" "'o view list"
  | Output 'o

definition outputs_children :: "component \<Rightarrow> bool" where
  "outputs_children Component = (Component = Own ''Page'' \<or> Component = Own ''Box'')"

fun component_key :: "component \<Rightarrow> string" where
  "component_key (Own c) = c"
| "component_key (Inherited c) = c"

text \<open>The results of a list of renderings, or the first failure.\<close>

fun collect :: "('e + 'a) list \<Rightarrow> 'e + 'a list" where
  "collect [] = Inr []"
| "collect (x # xs) =
     (case x of
        Inl e \<Rightarrow> Inl e
      | Inr v \<Rightarrow> (case collect xs of Inl e \<Rightarrow> Inl e | Inr vs \<Rightarrow> Inr (v # vs)))"

text \<open>
  Raw data as React children: \<open>null\<close> and booleans show nothing, strings and numbers are
  text, an array shows its elements, and an object is not a valid child.
\<close>

fun react_child :: "json \<Rightarrow> render_error + 'o view list" where
  "react_child JNull = Inr []"
| "react_child (JBool b) = Inr []"
| "react_child (JNum n) = Inr [TextView (int_toString n)]"
| "react_child (JStr s) = Inr [TextView s]"
| "react_child (JArr xs ps) =
     (case collect (map react_child xs) of Inl e \<Rightarrow> Inl e | Inr vss \<Rightarrow> Inr (concat vss))"
| "react_child (JObj ps) = Inl InvalidChild"

text \<open>
  Rendering the element that \<open>RecursiveRenderer\<close> returns for a node: the child elements are
  rendered only below a component that outputs its children.
\<close>

function react_render ::
  "(component \<Rightarrow> json obj \<Rightarrow> theme \<Rightarrow> children_prop \<Rightarrow> render_error + 'o) \<Rightarrow>
   json obj option \<Rightarrow> theme \<Rightarrow> node \<Rightarrow> render_error + 'o view" where
  "react_render body data th n =
     (case RecursiveRenderer data th n of
        NullElement \<Rightarrow> Inr Blank
      | UnknownBox c \<Rightarrow> Inr (UnknownView c)
      | ComponentElement Component ps t kids \<Rightarrow>
          if outputs_children Component then
            (case (case kids of
                     NoChildren \<Rightarrow> Inr []
                   | ChildElements d t' cs \<Rightarrow> collect (map (react_render body d t') cs)
                   | RawData v \<Rightarrow> react_child v) of
               Inl e \<Rightarrow> Inl e
             | Inr vs \<Rightarrow> Inr (Container (component_key Component) ps vs))
          else
            (case body Component ps t kids of
               Inl e \<Rightarrow> Inl e
             | Inr out \<Rightarrow> Inr (Output out)))"
  by pat_completeness auto
termination
proof (relation "measure (\<lambda>(body, data, th, n). size n)")
  show "wf (measure (\<lambda>(body, data, th, n). size n))" by simp
next
  fix body :: "component \<Rightarrow> json obj \<Rightarrow> theme \<Rightarrow> children_prop \<Rightarrow> render_error + 'o"
  fix data d :: "json obj option" and th t t' :: theme and n z :: node
  fix Component ps kids cs
  assume e: "RecursiveRenderer data th n = ComponentElement Component ps t kids"
    and k: "kids = ChildElements d t' cs" and z: "z \<in> set cs"
  from e k have "children n = Some (NodeList cs)"
    by (auto simp add: RecursiveRenderer_def Let_def
        split: option.splits node_children.splits if_splits)
  then obtain a b c where "n = Node a b c (Some (NodeList cs))"
    by (cases n) auto
  moreover have "size z \<le> size_list size cs"
    using z by (rule size_list_estimation') simp
  ultimately show "((body, d, t', z), (body, data, th, n)) \<in> measure (\<lambda>(body, data, th, n). size n)"
    by simp
qed

declare react_render.simps [simp del]





section \<open>Example funnels\<close>

definition mk_page :: "string \<Rightarrow> string \<Rightarrow> json obj \<Rightarrow> page" where
  "mk_page n p d = \<lparr>name = n, path = p, template = ''quiz'', template_data = d, page_rest = []\<rparr>"

definition mk_event :: "string \<Rightarrow> event" where
  "mk_event t = \<lparr>route = Some \<lparr>to = Some t, conditions = None\<rparr>, event_rest = []\<rparr>"

definition mk_session :: "page obj \<Rightarrow> event obj \<Rightarrow> session" where
  "mk_session pgs rt =
     \<lparr>config = \<lparr>templates = [(''quiz'', Node (Some ''Page'') None None None)], pages = pgs,
                 theme = \<lparr>colors = [(''primary'', ''#f00''), (''background'', ''#fff'')],
                          fonts = [(''body'', ''16px sans'')], theme_rest = []\<rparr>,
                 event_routing = rt, config_rest = []\<rparr>,
      past = [], future = [], activePageId = ''p1'', notification = None\<rparr>"

text \<open>Four pages; page \<open>pA\<close> at path 3 owns the event \<open>go\<close>, which routes to its successor.\<close>

definition funnel4 :: "page obj" where
  "funnel4 =
     [(''p1'', mk_page ''Intro'' ''1'' []),
      (''p2'', mk_page ''Age'' ''2'' []),
      (''pA'', mk_page ''Goal'' ''3'' [(''_on_click'', JStr ''go'')]),
      (''p4'', mk_page ''Result'' ''4'' [])]"

text \<open>A page references an event when the event's name is a value of its template data.\<close>

definition references :: "page \<Rightarrow> string \<Rightarrow> bool" where
  "references p e = (JStr e \<in> set (map snd (template_data p)))"


text \<open>
  Five pages; page \<open>pA\<close> at path 2 owns the event \<open>jump\<close>, which routes to page \<open>pC\<close> at
  path 5.
\<close>

definition funnel5 :: "page obj" where
  "funnel5 =
     [(''pB'', mk_page ''Intro'' ''1'' []),
      (''pA'', mk_page ''Age'' ''2'' [(''_on_click'', JStr ''jump'')]),
      (''p3'', mk_page ''Goal'' ''3'' []),
      (''p4'', mk_page ''Plan'' ''4'' []),
      (''pC'', mk_page ''Offer'' ''5'' [])]"

text \<open>Four pages; the first and the third both reference the event \<open>go\<close>.\<close>

definition funnel_shared :: "page obj" where
  "funnel_shared =
     [(''p1'', mk_page ''Intro'' ''1'' [(''_on_click'', JStr ''go'')]),
      (''p2'', mk_page ''Age'' ''2'' []),
      (''p3'', mk_page ''Goal'' ''3'' [(''_on_skip'', JStr ''go'')]),
      (''p4'', mk_page ''Result'' ''4'' [])]"

text \<open>
  A conditional branch without a default route, as the events editor creates it
  (\<open>to: ''\<close>), and the same branch with a default route.
\<close>

definition branch_event :: "string \<Rightarrow> string \<Rightarrow> event" where
  "branch_event t tgt =
     \<lparr>route = Some \<lparr>to = Some t,
        conditions = Some [\<lparr>cond_field = Some ''age'', target = Some tgt,
                            cond_rest = [(''operator'', JStr ''eq''), (''value'', JStr ''30'')]\<rparr>]\<rparr>,
      event_rest = [(''quiz_answer'', JStr ''age'')]\<rparr>"

text \<open>\<open>funnel4\<close> after a new page was put before page \<open>pA\<close>, and \<open>funnel5\<close> without its first page.\<close>

definition funnel4_inserted :: "page obj" where
  "funnel4_inserted =
     reindexPages (take 2 funnel4 @ [(''pNew'', mk_page ''New'' '''' [])] @ drop 2 funnel4)"

definition funnel5_deleted :: "page obj" where
  "funnel5_deleted = reindexPages (filter (\<lambda>(key, p). key \<noteq> ''pB'') funnel5)"

text \<open>\<open>funnel_shared\<close> with its first two pages swapped.\<close>

definition funnel_swapped :: "page obj" where
  "funnel_swapped =
     reindexPages [funnel_shared ! 1, funnel_shared ! 0, funnel_shared ! 2, funnel_shared ! 3]"

text \<open>
  An imported document without \<open>layout\<close> and with an incomplete theme, a document whose
  theme is not an object, and a session whose document is JSON.
\<close>

definition doc_good :: json where
  "doc_good =
     JObj [(''name'', JStr ''Quiz''), (''version'', JNum 3),
           (''pages'', JObj [(''p1'', JObj [(''path'', JStr ''1'')])]),
           (''theme'', JObj [(''fonts'', JNull), (''colors'', JObj [(''primary'', JStr ''red'')])]),
           (''templates'', JObj [])]"

definition doc_bad :: json where
  "doc_bad =
     JObj [(''pages'', JObj [(''p1'', JObj [])]), (''theme'', JStr ''dark''), (''templates'', JObj [])]"

definition json_session :: "json store" where
  "json_session =
     \<lparr>config = JObj [(''name'', JStr ''Old'')], past = [JNull], future = [], activePageId = ''old'',
      notification = None\<rparr>"




section \<open>Verified properties\<close>

subsection \<open>Numbers as strings\<close>

lemma take_bit_digit: "d < 10 \<Longrightarrow> take_bit 8 (48 + d) = 48 + (d::nat)"
  by (simp add: take_bit_nat_eq_self)

lemma digit_val_digit_char: "d < 10 \<Longrightarrow> digit_val (digit_char d) = Some d"
  by (simp add: digit_val_def digit_char_def Let_def)

lemma is_digit_digit_char: "d < 10 \<Longrightarrow> is_digit 10 (digit_char d)"
  by (simp add: is_digit_def digit_val_digit_char)

lemma digit_char_not_ws: "d < 10 \<Longrightarrow> \<not> isWhiteSpace (digit_char d)"
  by (auto simp add: isWhiteSpace_def digit_char_def char_of_eq_iff take_bit_digit)

lemma digits10_nonempty: "digits10 n \<noteq> []"
  by (subst digits10.simps) simp

lemma digits10_all: "c \<in> set (digits10 n) \<Longrightarrow> \<exists>d<10. c = digit_char d"
proof (induction n arbitrary: c rule: digits10.induct)
  case (1 n)
  show ?case
  proof (cases "n < 10")
    case True
    with "1.prems" show ?thesis by (subst (asm) digits10.simps) auto
  next
    case False
    with "1.prems" have "c \<in> set (digits10 (n div 10)) \<or> c = digit_char (n mod 10)"
      by (subst (asm) digits10.simps) auto
    then show ?thesis
    proof
      assume "c \<in> set (digits10 (n div 10))"
      with "1.IH" False show ?thesis by blast
    next
      assume "c = digit_char (n mod 10)"
      moreover have "n mod 10 < 10" by simp
      ultimately show ?thesis by blast
    qed
  qed
qed

lemma digits_value_snoc: "digits_value r (z @ [c]) = digits_value r z * r + the (digit_val c)"
  by (simp add: digits_value_def)

lemma digits_value_digits10: "digits_value 10 (digits10 n) = n"
proof (induction n rule: digits10.induct)
  case (1 n)
  show ?case
  proof (cases "n < 10")
    case True
    then show ?thesis
      by (subst digits10.simps) (simp add: digits_value_def digit_val_digit_char)
  next
    case False
    have "digits_value 10 (digits10 n) = digits_value 10 (digits10 (n div 10) @ [digit_char (n mod 10)])"
      using False by (subst digits10.simps) simp
    also have "\<dots> = (n div 10) * 10 + n mod 10"
      using "1.IH" False by (simp add: digits_value_snoc digit_val_digit_char)
    finally show ?thesis by simp
  qed
qed

lemma parseInt_digits10: "parseInt (digits10 n) = Some (int n)"
proof -
  let ?s = "digits10 n"
  have ne: "?s \<noteq> []" by (rule digits10_nonempty)
  have all: "\<And>c. c \<in> set ?s \<Longrightarrow> \<exists>d<10. c = digit_char d" by (rule digits10_all)
  have hd_in: "hd ?s \<in> set ?s" using ne by simp
  then obtain d where d: "d < 10" "hd ?s = digit_char d" using all by blast
  have s1: "dropWhile isWhiteSpace ?s = ?s"
    using ne d digit_char_not_ws by (cases ?s) auto
  have nosign: "hd ?s \<noteq> CHR ''+''" "hd ?s \<noteq> CHR ''-''"
    using d by (auto simp add: digit_char_def char_of_eq_iff take_bit_digit)
  have nohex: "take 2 ?s \<noteq> ''0x''" "take 2 ?s \<noteq> ''0X''"
  proof -
    { fix x assume "take 2 ?s = [CHR ''0'', x]"
      then have "x \<in> set (take 2 ?s)" by simp
      then have "x \<in> set ?s" by (rule in_set_takeD)
      then obtain e where "e < 10" "x = digit_char e" using all by blast
      then have "x \<noteq> CHR ''x'' \<and> x \<noteq> CHR ''X''"
        by (auto simp add: digit_char_def char_of_eq_iff take_bit_digit) }
    then show "take 2 ?s \<noteq> ''0x''" "take 2 ?s \<noteq> ''0X''" by auto
  qed
  have tw: "takeWhile (is_digit 10) ?s = ?s"
    using all is_digit_digit_char by (auto simp add: takeWhile_eq_all_conv)
  show ?thesis
    using ne nosign nohex
    by (simp add: parseInt_def parseInt_radix_def Let_def digits_value_digits10 s1 tw)
qed

lemma parseInt_int_toString: "0 \<le> i \<Longrightarrow> parseInt (int_toString i) = Some i"
  by (simp add: int_toString_def parseInt_digits10)

lemma int_toString_inj: "0 \<le> i \<Longrightarrow> 0 \<le> j \<Longrightarrow> int_toString i = int_toString j \<Longrightarrow> i = j"
  by (metis parseInt_int_toString option.inject)

lemma int_toString_nonempty: "int_toString i \<noteq> []"
  by (simp add: int_toString_def digits10_nonempty)

subsection \<open>Mutation history\<close>

lemma undo_pops:
  "(undo ^^ length q) (st\<lparr>past := p @ q, future := f, config := c\<rparr>) =
     st\<lparr>past := p, future := tl (q @ [c]) @ f, config := hd (q @ [c])\<rparr>"
proof (induction q arbitrary: c f rule: rev_induct)
  case Nil
  then show ?case by simp
next
  case (snoc x xs)
  have "undo (st\<lparr>past := p @ xs @ [x], future := f, config := c\<rparr>) =
        st\<lparr>past := p @ xs, future := c # f, config := x\<rparr>"
    by (simp add: undo_def butlast_append)
  then have "(undo ^^ length (xs @ [x])) (st\<lparr>past := p @ xs @ [x], future := f, config := c\<rparr>) =
        (undo ^^ length xs) (st\<lparr>past := p @ xs, future := c # f, config := x\<rparr>)"
    by (simp add: funpow_swap1)
  also have "\<dots> = st\<lparr>past := p, future := tl (xs @ [x]) @ c # f, config := hd (xs @ [x])\<rparr>"
    using snoc.IH [where c = x and f = "c # f"] .
  finally show ?case
    by (cases xs) simp_all
qed

lemma redo_pushes:
  "(redo ^^ length q) (st\<lparr>past := p, future := q @ f, config := c\<rparr>) =
     st\<lparr>past := p @ butlast (c # q), future := f, config := last (c # q)\<rparr>"
proof (induction q arbitrary: c p)
  case Nil
  then show ?case by simp
next
  case (Cons x xs)
  have "redo (st\<lparr>past := p, future := (x # xs) @ f, config := c\<rparr>) =
        st\<lparr>past := p @ [c], future := xs @ f, config := x\<rparr>"
    by (simp add: redo_def)
  then have "(redo ^^ length (x # xs)) (st\<lparr>past := p, future := (x # xs) @ f, config := c\<rparr>) =
        (redo ^^ length xs) (st\<lparr>past := p @ [c], future := xs @ f, config := x\<rparr>)"
    by (simp add: funpow_swap1)
  also have "\<dots> = st\<lparr>past := (p @ [c]) @ butlast (x # xs), future := f, config := last (x # xs)\<rparr>"
    using Cons.IH [where c = x and p = "p @ [c]"] .
  finally show ?case
    by simp
qed

lemma mutations_history:
  "length (past st) + length fs \<le> MAX_HISTORY \<Longrightarrow>
     length (past (mutations fs st)) = length (past st) + length fs \<and>
     future (mutations fs st) = (if fs = [] then future st else [])"
proof (induction fs arbitrary: st)
  case Nil
  then show ?case by (simp add: mutations_def)
next
  case (Cons g gs)
  let ?st1 = "setConfig g st"
  have p1: "length (past ?st1) = Suc (length (past st))"
    using Cons.prems by (simp add: setConfig_def slice_last_def Let_def)
  have f1: "future ?st1 = []"
    by (simp add: setConfig_def Let_def)
  have "length (past ?st1) + length gs \<le> MAX_HISTORY"
    using Cons.prems p1 by simp
  from Cons.IH [OF this] p1 f1 show ?case
    by (simp add: mutations_def)
qed

lemma undo_redo_any:
  assumes "k \<le> length (past s)"
  shows "(redo ^^ k) ((undo ^^ k) s) = s"
proof -
  let ?p = "take (length (past s) - k) (past s)"
  let ?q = "drop (length (past s) - k) (past s)"
  have lq: "length ?q = k" using assms by simp
  have e: "s\<lparr>past := ?p @ ?q, future := future s, config := config s\<rparr> = s" by simp
  have "(undo ^^ length ?q) (s\<lparr>past := ?p @ ?q, future := future s, config := config s\<rparr>) =
        s\<lparr>past := ?p, future := tl (?q @ [config s]) @ future s, config := hd (?q @ [config s])\<rparr>"
    by (rule undo_pops)
  then have u: "(undo ^^ k) s =
        s\<lparr>past := ?p, future := tl (?q @ [config s]) @ future s, config := hd (?q @ [config s])\<rparr>"
    unfolding e lq .
  let ?r = "tl (?q @ [config s])"
  have lr: "length ?r = k" using lq by simp
  have "(redo ^^ length ?r) (s\<lparr>past := ?p, future := ?r @ future s, config := hd (?q @ [config s])\<rparr>) =
        s\<lparr>past := ?p @ butlast (hd (?q @ [config s]) # ?r), future := future s,
           config := last (hd (?q @ [config s]) # ?r)\<rparr>"
    by (rule redo_pushes)
  moreover have "hd (?q @ [config s]) # ?r = ?q @ [config s]" by simp
  ultimately have "(redo ^^ k) ((undo ^^ k) s) =
        s\<lparr>past := ?p @ ?q, future := future s, config := config s\<rparr>"
    unfolding u lr by (simp del: append_take_drop_id)
  then show ?thesis by simp
qed

text \<open>
  C5. Undo/redo symmetry: \<open>k\<close> undos followed by \<open>k\<close> redos give back the store as it
  was (the document and both stacks) whenever the past stack holds at least \<open>k\<close> entries;
  from a store with empty history, \<open>k\<close> mutations with \<open>k\<close> at most the history cap leave
  exactly \<open>k\<close> entries on the past stack, so the symmetry holds right after them; undo and
  redo leave the store alone when their source stack is empty.
\<close>

theorem undo_redo_symmetry:
  "(k \<le> length (past s) \<longrightarrow> (redo ^^ k) ((undo ^^ k) s) = s) \<and>
   (past st = [] \<and> future st = [] \<and> length fs \<le> MAX_HISTORY \<longrightarrow>
      length (past (mutations fs st)) = length fs \<and>
      (redo ^^ length fs) ((undo ^^ length fs) (mutations fs st)) = mutations fs st) \<and>
   (past st = [] \<longrightarrow> undo st = st) \<and>
   (future st = [] \<longrightarrow> redo st = st)"
proof (intro conjI impI)
  show "k \<le> length (past s) \<Longrightarrow> (redo ^^ k) ((undo ^^ k) s) = s"
    by (rule undo_redo_any)
  show "past st = [] \<Longrightarrow> undo st = st" by (simp add: undo_def)
  show "future st = [] \<Longrightarrow> redo st = st" by (simp add: redo_def)
  assume a: "past st = [] \<and> future st = [] \<and> length fs \<le> MAX_HISTORY"
  show l: "length (past (mutations fs st)) = length fs"
    using mutations_history [of st fs] a by simp
  show "(redo ^^ length fs) ((undo ^^ length fs) (mutations fs st)) = mutations fs st"
    using undo_redo_any [of "length fs" "mutations fs st"] l by simp
qed

theorem undo_redo_symmetry_witness:
  "(2::nat) \<le> length (past (deletePage ''p2'' (addPage ''p9'' (mk_page ''New'' ''7'' [])
       (mk_session funnel4 [(''go'', mk_event ''4'')])))) \<and>
   (redo ^^ 2) ((undo ^^ 2) (deletePage ''p2'' (addPage ''p9'' (mk_page ''New'' ''7'' [])
       (mk_session funnel4 [(''go'', mk_event ''4'')])))) =
     deletePage ''p2'' (addPage ''p9'' (mk_page ''New'' ''7'' []) (mk_session funnel4 [(''go'', mk_event ''4'')])) \<and>
   past \<lparr>config = 7::nat, past = [], future = [], activePageId = ''p1'', notification = None\<rparr> = [] \<and>
   future \<lparr>config = 7::nat, past = [], future = [], activePageId = ''p1'', notification = None\<rparr> = [] \<and>
   length [Suc, (\<lambda>c. c * 2), (\<lambda>c. c + 5)] \<le> MAX_HISTORY \<and>
   (redo ^^ 3) ((undo ^^ 3) (mutations [Suc, (\<lambda>c. c * 2), (\<lambda>c. c + 5)]
      \<lparr>config = 7::nat, past = [], future = [], activePageId = ''p1'', notification = None\<rparr>)) =
    \<lparr>config = 21, past = [7, 8, 16], future = [], activePageId = ''p1'', notification = None\<rparr> \<and>
   mutations [Suc, (\<lambda>c. c * 2), (\<lambda>c. c + 5)]
      \<lparr>config = 7::nat, past = [], future = [], activePageId = ''p1'', notification = None\<rparr> =
    \<lparr>config = 21, past = [7, 8, 16], future = [], activePageId = ''p1'', notification = None\<rparr> \<and>
   undo \<lparr>config = 7::nat, past = [], future = [], activePageId = ''p1'', notification = None\<rparr> =
    \<lparr>config = 7::nat, past = [], future = [], activePageId = ''p1'', notification = None\<rparr> \<and>
   redo \<lparr>config = 7::nat, past = [], future = [], activePageId = ''p1'', notification = None\<rparr> =
    \<lparr>config = 7::nat, past = [], future = [], activePageId = ''p1'', notification = None\<rparr>"
proof -
  let ?e = "deletePage ''p2'' (addPage ''p9'' (mk_page ''New'' ''7'' [])
       (mk_session funnel4 [(''go'', mk_event ''4'')]))"
  let ?n = "\<lparr>config = 7::nat, past = [], future = [], activePageId = ''p1'', notification = None\<rparr>"
  let ?fs = "[Suc, (\<lambda>c. c * 2), (\<lambda>c. c + 5)]"
  have h: "(2::nat) \<le> length (past ?e)" by code_simp
  have m: "mutations ?fs ?n =
      \<lparr>config = 21, past = [7, 8, 16], future = [], activePageId = ''p1'', notification = None\<rparr>"
    by (simp add: MAX_HISTORY_def mutations_def setConfig_def slice_last_def)
  have c: "length ?fs \<le> MAX_HISTORY" by (simp add: MAX_HISTORY_def)
  have l3: "length ?fs = 3" by simp
  note t1 = undo_redo_symmetry [of 2 ?e ?n ?fs, THEN conjunct1, THEN mp, OF h]
  note t2 = undo_redo_symmetry [of 2 ?e ?n ?fs]
  have pf: "past ?n = [] \<and> future ?n = [] \<and> length ?fs \<le> MAX_HISTORY"
    using c by simp
  note t3 = t2 [THEN conjunct2, THEN conjunct1, THEN mp, OF pf, THEN conjunct2]
  have r: "(redo ^^ 3) ((undo ^^ 3) (mutations ?fs ?n)) =
      \<lparr>config = 21, past = [7, 8, 16], future = [], activePageId = ''p1'', notification = None\<rparr>"
    using t3 unfolding l3 m .
  have u: "undo ?n = ?n"
    using t2 [THEN conjunct2, THEN conjunct2, THEN conjunct1] by simp
  have d: "redo ?n = ?n"
    using t2 [THEN conjunct2, THEN conjunct2, THEN conjunct2] by simp
  show ?thesis
    using h t1 c r m u d by (simp only: simp_thms pf)
qed

subsection \<open>Path Reindexer\<close>

lemma reindexPages_length: "length (reindexPages ps) = length ps"
  by (simp add: reindexPages_def)

lemma reindexPages_nth:
  "i < length ps \<Longrightarrow>
     reindexPages ps ! i = (fst (ps ! i), (snd (ps ! i))\<lparr>path := int_toString (int i + 1)\<rparr>)"
  by (simp add: reindexPages_def nth_enumerate_eq split_beta)

lemma page_paths_reindexPages: "page_paths (reindexPages ps) = paths_upto (length ps)"
  by (rule nth_equalityI)
     (simp_all add: page_paths_def paths_upto_def reindexPages_length reindexPages_nth split_beta)

lemma distinct_paths_upto: "distinct (paths_upto n)"
proof -
  have "inj_on (\<lambda>i. int_toString (int i + 1)) (set [0..<n])"
    by (rule inj_onI) (auto dest!: int_toString_inj [rotated 2])
  then show ?thesis
    by (simp add: paths_upto_def distinct_map)
qed

lemma paths_ok_reindexPages: "paths_ok (reindexPages ps)"
  by (simp add: paths_ok_def page_paths_reindexPages reindexPages_length)

lemma apply_edit_pages:
  "pages (config (apply_edit e st)) = pages (config st) \<or>
   (\<exists>raw. pages (config (apply_edit e st)) = reindexPages raw)"
proof (cases e)
  case (AddPage pageId newConfig)
  then show ?thesis
    by (simp add: addPage_def setActivePageId_def setConfig_def Let_def) blast
next
  case (DuplicatePage now pageId)
  then show ?thesis
    by (simp add: duplicatePage_def setActivePageId_def setConfig_def Let_def split: option.split) blast
next
  case (ReorderPages newOrder)
  then show ?thesis
    by (simp add: reorderPages_def notify_def setConfig_def Let_def) blast
next
  case (DeletePage pageId)
  then show ?thesis
    by (simp add: deletePage_def notify_def setActivePageId_def setConfig_def Let_def) blast
qed

lemma apply_edit_paths_ok:
  "paths_ok (pages (config st)) \<Longrightarrow> paths_ok (pages (config (apply_edit e st)))"
  using apply_edit_pages [of e st] paths_ok_reindexPages by auto

lemma edits_paths_ok:
  "paths_ok (pages (config st)) \<Longrightarrow> paths_ok (pages (config (fold apply_edit es st)))"
  by (induction es arbitrary: st) (simp_all add: apply_edit_paths_ok)

text \<open>
  C4. Path invariant: \<open>reindexPages\<close> keeps the keys and their order, gives the page at
  index \<open>i\<close> the path \<open>i + 1\<close> as a string and changes no other field, so the paths are
  exactly \<open>"1"\<close>, ..., \<open>"N"\<close> in collection order, without repeats; every structural edit
  (add, duplicate, reorder, delete) either leaves the pages alone or ends in such paths, and
  any sequence of edits keeps the invariant.
\<close>

theorem path_invariant:
  "map fst (reindexPages ps) = map fst ps \<and>
   (\<forall>i<length ps. snd (reindexPages ps ! i) = (snd (ps ! i))\<lparr>path := int_toString (int i + 1)\<rparr>) \<and>
   page_paths (reindexPages ps) = paths_upto (length ps) \<and>
   distinct (paths_upto (length ps)) \<and>
   (pages (config (apply_edit e st)) = pages (config st) \<or> paths_ok (pages (config (apply_edit e st)))) \<and>
   (paths_ok (pages (config st)) \<longrightarrow> paths_ok (pages (config (fold apply_edit es st))))"
proof (intro conjI allI impI)
  show "map fst (reindexPages ps) = map fst ps"
    by (rule nth_equalityI) (simp_all add: reindexPages_length reindexPages_nth)
  show "page_paths (reindexPages ps) = paths_upto (length ps)"
    by (rule page_paths_reindexPages)
  show "distinct (paths_upto (length ps))"
    by (rule distinct_paths_upto)
  show "pages (config (apply_edit e st)) = pages (config st) \<or> paths_ok (pages (config (apply_edit e st)))"
    using apply_edit_pages [of e st] paths_ok_reindexPages by auto
next
  fix i assume "i < length ps"
  then show "snd (reindexPages ps ! i) = (snd (ps ! i))\<lparr>path := int_toString (int i + 1)\<rparr>"
    by (simp add: reindexPages_nth)
next
  assume "paths_ok (pages (config st))"
  then show "paths_ok (pages (config (fold apply_edit es st)))"
    by (rule edits_paths_ok)
qed

theorem path_invariant_witness:
  "paths_ok (pages (config (mk_session funnel4 [(''go'', mk_event ''4'')]))) \<and>
   paths_ok (pages (config (fold apply_edit
      [AddPage ''p9'' (mk_page ''New'' ''7'' []), DuplicatePage 1700 ''p1'',
       ReorderPages [''p9'', ''pA'', ''p1'', ''p2'', ''p4''], DeletePage ''p2'']
      (mk_session funnel4 [(''go'', mk_event ''4'')])))) \<and>
   (1::nat) < length (rev funnel4) \<and>
   snd (reindexPages (rev funnel4) ! 1) = mk_page ''Goal'' ''2'' [(''_on_click'', JStr ''go'')]"
proof -
  have h: "paths_ok (pages (config (mk_session funnel4 [(''go'', mk_event ''4'')])))"
    by code_simp
  have i: "(1::nat) < length (rev funnel4)"
    by (simp add: funnel4_def)
  have v: "(snd (rev funnel4 ! 1))\<lparr>path := int_toString (int 1 + 1)\<rparr> =
      mk_page ''Goal'' ''2'' [(''_on_click'', JStr ''go'')]"
    by code_simp
  from path_invariant [of "rev funnel4" "DeletePage ''p2''" "mk_session funnel4 [(''go'', mk_event ''4'')]"
      "[AddPage ''p9'' (mk_page ''New'' ''7'' []), DuplicatePage 1700 ''p1'',
       ReorderPages [''p9'', ''pA'', ''p1'', ''p2'', ''p4''], DeletePage ''p2'']"] h i v
  show ?thesis by simp
qed


subsection \<open>Route Migrator\<close>

lemma migrateLoop_fst:
  "fst (migrateLoop pm om old new rt) =
     map (\<lambda>(e, ev). (e, fst (migrateEvent pm om old new e ev))) rt"
  by (induction rt) (auto simp add: Let_def split_beta)

lemma reindexEventRouting_routing:
  "routing (reindexEventRouting old new rt) =
     map (\<lambda>(e, ev). (e, fst (migrateEvent (buildPathMap old new) (buildEventOwnerMap old rt) old new e ev))) rt"
  by (simp add: reindexEventRouting_def Let_def split_beta migrateLoop_fst)

lemma reindexEventRouting_nth:
  "i < length rt \<Longrightarrow> rt ! i = (e, ev) \<Longrightarrow>
   routing (reindexEventRouting old new rt) ! i =
     (e, fst (migrateEvent (buildPathMap old new) (buildEventOwnerMap old rt) old new e ev))"
  by (simp add: reindexEventRouting_routing split_beta)

lemma migrateEvent_sequential:
  assumes "route ev = Some r" "to r = Some t" "t \<noteq> []"
    and "wasSequential (ownerPath (obj_get om e) old) t"
    and "ownerPath (obj_get om e) new = Some q"
  shows "fst (migrateEvent pm om old new e ev) =
     ev\<lparr>route := Some (r\<lparr>to := Some (num_toString (num_plus1 (parseInt q))),
                          conditions := map_option (map (migrateCondition pm)) (conditions r)\<rparr>)\<rparr>"
  using assms by (simp add: migrateEvent_def Let_def)

lemma migrateEvent_custom:
  assumes "route ev = Some r" "to r = Some t" "t \<noteq> []"
    and "\<not> wasSequential (ownerPath (obj_get om e) old) t"
  shows "fst (migrateEvent pm om old new e ev) =
     ev\<lparr>route := Some (r\<lparr>to := Some (case pathMap_get pm t of Some v \<Rightarrow> v | None \<Rightarrow> t),
                          conditions := map_option (map (migrateCondition pm)) (conditions r)\<rparr>)\<rparr>"
  using assms by (simp add: migrateEvent_def Let_def split: option.splits)

lemma migrateEvent_skipped:
  assumes "route ev = None \<or> (\<exists>r. route ev = Some r \<and> (to r = None \<or> to r = Some []))"
  shows "migrateEvent pm om old new e ev = (ev, 0, 0)"
  using assms by (auto simp add: migrateEvent_def)

lemma obj_get_obj_set: "obj_get (obj_set k v ob) k' = (if k' = k then Some v else obj_get ob k')"
  by (induction ob) (auto simp add: obj_get_def)

lemma obj_get_in_set: "obj_get ob k = Some v \<Longrightarrow> (k, v) \<in> set ob"
  by (simp add: obj_get_def map_of_SomeD)

lemma obj_get_distinct: "distinct (map fst ob) \<Longrightarrow> (k, v) \<in> set ob \<Longrightarrow> obj_get ob k = Some v"
  by (simp add: obj_get_def)

lemma owner_inner:
  "obj_get (foldl (\<lambda>om val. case val of
             JStr s \<Rightarrow> if s \<in> K then obj_set s pk om else om
           | _ \<Rightarrow> om) om vals) e =
   (if JStr e \<in> set vals \<and> e \<in> K then Some pk else obj_get om e)"
proof (induction vals arbitrary: om)
  case Nil
  then show ?case by simp
next
  case (Cons v vs)
  then show ?case
    by (cases v) (auto simp add: obj_get_obj_set)
qed

lemma buildEventOwnerMap_snoc:
  "obj_get (buildEventOwnerMap (pgs @ [(k, p)]) rt) e =
     (if references p e \<and> e \<in> set (map fst rt) then Some k
      else obj_get (buildEventOwnerMap pgs rt) e)"
  by (simp add: buildEventOwnerMap_def owner_inner references_def)

lemma buildEventOwnerMap_unreferenced:
  "\<forall>(k, p) \<in> set pgs. \<not> references p e \<Longrightarrow>
     obj_get (buildEventOwnerMap (pre @ pgs) rt) e = obj_get (buildEventOwnerMap pre rt) e"
proof (induction pgs rule: rev_induct)
  case Nil
  then show ?case by simp
next
  case (snoc x xs)
  obtain k p where x: "x = (k, p)" by (cases x)
  have "obj_get (buildEventOwnerMap ((pre @ xs) @ [(k, p)]) rt) e =
        obj_get (buildEventOwnerMap (pre @ xs) rt) e"
    using snoc.prems x by (simp only: buildEventOwnerMap_snoc) auto
  then show ?case using snoc x by simp
qed

lemma buildEventOwnerMap_last_writer:
  assumes "references p e" "e \<in> set (map fst rt)"
    and "\<forall>(k', p') \<in> set later. \<not> references p' e"
  shows "obj_get (buildEventOwnerMap (earlier @ [(k, p)] @ later) rt) e = Some k"
proof -
  have "obj_get (buildEventOwnerMap ((earlier @ [(k, p)]) @ later) rt) e =
        obj_get (buildEventOwnerMap (earlier @ [(k, p)]) rt) e"
    using assms(3) by (rule buildEventOwnerMap_unreferenced)
  then show ?thesis
    using assms(1,2) by (simp add: buildEventOwnerMap_snoc)
qed

lemma buildPathMap_snoc:
  "obj_get (buildPathMap (old @ [(k, op)]) new) x =
     (case obj_get new k of
        None \<Rightarrow> obj_get (buildPathMap old new) x
      | Some np \<Rightarrow> if path op \<noteq> path np \<and> x = path op then Some (path np)
                  else obj_get (buildPathMap old new) x)"
  by (simp add: buildPathMap_def obj_get_obj_set split: option.splits)

lemma buildPathMap_dom:
  "obj_get (buildPathMap old new) x = Some v \<Longrightarrow> x \<in> set (page_paths old) \<and> v \<in> set (page_paths new)"
proof (induction old rule: rev_induct)
  case Nil
  then show ?case by (simp add: buildPathMap_def obj_get_def)
next
  case (snoc a old)
  obtain k op where a: "a = (k, op)" by (cases a)
  show ?case
  proof (cases "obj_get new k")
    case None
    with snoc a show ?thesis by (simp add: buildPathMap_snoc page_paths_def)
  next
    case (Some np)
    then have "path np \<in> set (page_paths new)"
      by (force simp add: page_paths_def dest: obj_get_in_set)
    with snoc a Some show ?thesis
      by (auto simp add: buildPathMap_snoc page_paths_def split: if_splits)
  qed
qed

lemma buildPathMap_identity:
  assumes "distinct (page_paths old)" "(k, p) \<in> set old"
  shows "obj_get (buildPathMap old new) (path p) =
     (case obj_get new k of
        None \<Rightarrow> None
      | Some np \<Rightarrow> if path p \<noteq> path np then Some (path np) else None)"
  using assms
proof (induction old rule: rev_induct)
  case Nil
  then show ?case by simp
next
  case (snoc a old)
  obtain k' p' where a: "a = (k', p')" by (cases a)
  from snoc.prems(1) a have d: "distinct (page_paths old)" and n: "path p' \<notin> set (page_paths old)"
    by (simp_all add: page_paths_def)
  have none: "obj_get (buildPathMap old new) (path p') = None"
  proof (cases "obj_get (buildPathMap old new) (path p')")
    case (Some v)
    with buildPathMap_dom [of old new "path p'" v] n show ?thesis by simp
  qed simp
  show ?case
  proof (cases "(k, p) \<in> set old")
    case True
    then have ne: "path p \<noteq> path p'"
      using n by (force simp add: page_paths_def)
    have "obj_get (buildPathMap (old @ [(k', p')]) new) (path p) =
          obj_get (buildPathMap old new) (path p)"
      using ne by (simp add: buildPathMap_snoc split: option.splits)
    with snoc.IH [OF d True] a show ?thesis
      by simp
  next
    case False
    with snoc.prems(2) a have "k = k'" "p = p'" by auto
    with none a show ?thesis
      by (auto simp add: buildPathMap_snoc split: option.splits)
  qed
qed

lemma parseInt_plus1_toString:
  "0 \<le> n \<Longrightarrow> num_toString (num_plus1 (parseInt (int_toString n))) = int_toString (n + 1)"
  by (simp add: parseInt_int_toString num_plus1_def num_toString_def)

text \<open>
  C1. Sequential rule of the Route Migrator: a routing entry with a (non-empty) \<open>route.to\<close>
  whose owner, found by the event-owner map over the pre-edit pages, had old path \<open>p\<close> and
  whose \<open>route.to\<close> is \<open>p + 1\<close> (as \<open>parseInt\<close> reads both), and whose owner is still a page
  after the edit, gets \<open>route.to\<close> = the owner's new path + 1 written as a string; when the
  owner's new path is the decimal string of \<open>n\<close>, that is the decimal string of \<open>n + 1\<close>.
\<close>

theorem sequential_route_rule:
  assumes "i < length rt" and "rt ! i = (e, ev)"
    and "route ev = Some r" and "to r = Some t" and "t \<noteq> []"
    and "obj_get (buildEventOwnerMap old rt) e = Some k" and "k \<noteq> []"
    and "obj_get old k = Some op" and "obj_get new k = Some np"
    and "num_eq (parseInt t) (num_plus1 (parseInt (path op)))"
  shows "routing (reindexEventRouting old new rt) ! i =
      (e, ev\<lparr>route := Some (r\<lparr>to := Some (num_toString (num_plus1 (parseInt (path np)))),
            conditions := map_option (map (migrateCondition (buildPathMap old new))) (conditions r)\<rparr>)\<rparr>) \<and>
     (0 \<le> n \<and> path np = int_toString n \<longrightarrow>
        num_toString (num_plus1 (parseInt (path np))) = int_toString (n + 1))"
proof
  have o: "ownerPath (obj_get (buildEventOwnerMap old rt) e) old = Some (path op)"
    using assms(6,7,8) by (simp add: ownerPath_def)
  have n: "ownerPath (obj_get (buildEventOwnerMap old rt) e) new = Some (path np)"
    using assms(6,7,9) by (simp add: ownerPath_def)
  have w: "wasSequential (ownerPath (obj_get (buildEventOwnerMap old rt) e) old) t"
    using o assms(10) by (simp add: wasSequential_def)
  show "routing (reindexEventRouting old new rt) ! i =
      (e, ev\<lparr>route := Some (r\<lparr>to := Some (num_toString (num_plus1 (parseInt (path np)))),
            conditions := map_option (map (migrateCondition (buildPathMap old new))) (conditions r)\<rparr>)\<rparr>)"
    using reindexEventRouting_nth [OF assms(1,2)] migrateEvent_sequential [OF assms(3,4,5) w n]
    by simp
  show "0 \<le> n \<and> path np = int_toString n \<longrightarrow>
        num_toString (num_plus1 (parseInt (path np))) = int_toString (n + 1)"
    by (auto simp add: parseInt_plus1_toString)
qed

theorem sequential_route_rule_witness:
  "(0::nat) < length [(''go'', mk_event ''4'')] \<and>
   obj_get (buildEventOwnerMap funnel4 [(''go'', mk_event ''4'')]) ''go'' = Some ''pA'' \<and>
   obj_get funnel4 ''pA'' = Some (mk_page ''Goal'' ''3'' [(''_on_click'', JStr ''go'')]) \<and>
   obj_get funnel4_inserted ''pA'' = Some (mk_page ''Goal'' ''4'' [(''_on_click'', JStr ''go'')]) \<and>
   num_eq (parseInt ''4'') (num_plus1 (parseInt ''3'')) \<and>
   routing (reindexEventRouting funnel4 funnel4_inserted [(''go'', mk_event ''4'')]) ! 0 =
     (''go'', mk_event ''5'')"
proof -
  let ?rt = "[(''go'', mk_event ''4'')]"
  let ?op = "mk_page ''Goal'' ''3'' [(''_on_click'', JStr ''go'')]"
  let ?np = "mk_page ''Goal'' ''4'' [(''_on_click'', JStr ''go'')]"
  let ?r = "\<lparr>to = Some ''4'', conditions = None\<rparr>"
  have h1: "(0::nat) < length ?rt" by simp
  have h2: "?rt ! 0 = (''go'', mk_event ''4'')" by simp
  have h3: "route (mk_event ''4'') = Some ?r" by (simp add: mk_event_def)
  have h4: "to ?r = Some ''4''" by simp
  have h5: "''4'' \<noteq> []" by simp
  have h6: "obj_get (buildEventOwnerMap funnel4 ?rt) ''go'' = Some ''pA''" by code_simp
  have h7: "''pA'' \<noteq> []" by simp
  have h8: "obj_get funnel4 ''pA'' = Some ?op" by code_simp
  have h9: "obj_get funnel4_inserted ''pA'' = Some ?np" by code_simp
  have h10: "num_eq (parseInt ''4'') (num_plus1 (parseInt (path ?op)))" by code_simp
  have p: "path ?op = ''3''" by (simp add: mk_page_def)
  have v: "mk_event ''4''\<lparr>route := Some (?r\<lparr>to := Some (num_toString (num_plus1 (parseInt (path ?np)))),
        conditions := map_option (map (migrateCondition (buildPathMap funnel4 funnel4_inserted)))
          (conditions ?r)\<rparr>)\<rparr> = mk_event ''5''"
    by code_simp
  from sequential_route_rule [OF h1 h2 h3 h4 h5 h6 h7 h8 h9 h10, of 4] h1 h6 h8 h9 h10 p v
  show ?thesis by simp
qed

text \<open>
  C2. Custom rule of the Route Migrator: a routing entry with a (non-empty) \<open>route.to\<close> that is
  not its owner's old path + 1 gets the new path that the old-path-to-new-path map gives for
  the old \<open>route.to\<close>, and keeps its old value when the map has no entry for it (the new
  pages having non-empty paths, as after a reindex).  With unique old paths this is the new
  path of the page that the route pointed to, if that page is still there: the route
  follows the page by identity.
\<close>

theorem custom_route_rule:
  assumes "i < length rt" and "rt ! i = (e, ev)"
    and "route ev = Some r" and "to r = Some t" and "t \<noteq> []"
    and "\<not> wasSequential (ownerPath (obj_get (buildEventOwnerMap old rt) e) old) t"
    and "[] \<notin> set (page_paths new)"
  shows "routing (reindexEventRouting old new rt) ! i =
      (e, ev\<lparr>route := Some (r\<lparr>to := Some (case obj_get (buildPathMap old new) t of
                                              Some v \<Rightarrow> v | None \<Rightarrow> t),
            conditions := map_option (map (migrateCondition (buildPathMap old new))) (conditions r)\<rparr>)\<rparr>) \<and>
     (distinct (page_paths old) \<and> (kt, tp) \<in> set old \<and> path tp = t \<longrightarrow>
        (case obj_get (buildPathMap old new) t of Some v \<Rightarrow> v | None \<Rightarrow> t) =
        (case obj_get new kt of Some np \<Rightarrow> path np | None \<Rightarrow> t))"
proof
  have "pathMap_get (buildPathMap old new) t = obj_get (buildPathMap old new) t"
  proof (cases "obj_get (buildPathMap old new) t")
    case None
    then show ?thesis by (simp add: pathMap_get_def)
  next
    case (Some v)
    with buildPathMap_dom [of old new t v] assms(7) have "v \<noteq> []" by auto
    with Some show ?thesis by (simp add: pathMap_get_def)
  qed
  then show "routing (reindexEventRouting old new rt) ! i =
      (e, ev\<lparr>route := Some (r\<lparr>to := Some (case obj_get (buildPathMap old new) t of
                                              Some v \<Rightarrow> v | None \<Rightarrow> t),
            conditions := map_option (map (migrateCondition (buildPathMap old new))) (conditions r)\<rparr>)\<rparr>)"
    using reindexEventRouting_nth [OF assms(1,2)] migrateEvent_custom [OF assms(3,4,5,6)]
    by simp
  show "distinct (page_paths old) \<and> (kt, tp) \<in> set old \<and> path tp = t \<longrightarrow>
        (case obj_get (buildPathMap old new) t of Some v \<Rightarrow> v | None \<Rightarrow> t) =
        (case obj_get new kt of Some np \<Rightarrow> path np | None \<Rightarrow> t)"
  proof
    assume a: "distinct (page_paths old) \<and> (kt, tp) \<in> set old \<and> path tp = t"
    then have "obj_get (buildPathMap old new) (path tp) =
      (case obj_get new kt of None \<Rightarrow> None
       | Some np \<Rightarrow> if path tp \<noteq> path np then Some (path np) else None)"
      using buildPathMap_identity [of old kt tp new] by simp
    with a show "(case obj_get (buildPathMap old new) t of Some v \<Rightarrow> v | None \<Rightarrow> t) =
        (case obj_get new kt of Some np \<Rightarrow> path np | None \<Rightarrow> t)"
      by (auto split: option.splits)
  qed
qed

theorem custom_route_rule_witness:
  "\<not> wasSequential (ownerPath (obj_get (buildEventOwnerMap funnel5
        [(''jump'', mk_event ''5''), (''back'', mk_event ''1'')]) ''jump'') funnel5) ''5'' \<and>
   \<not> wasSequential (ownerPath (obj_get (buildEventOwnerMap funnel5
        [(''jump'', mk_event ''5''), (''back'', mk_event ''1'')]) ''back'') funnel5) ''1'' \<and>
   [] \<notin> set (page_paths funnel5_deleted) \<and>
   distinct (page_paths funnel5) \<and>
   (''pC'', mk_page ''Offer'' ''5'' []) \<in> set funnel5 \<and>
   obj_get funnel5_deleted ''pC'' = Some (mk_page ''Offer'' ''4'' []) \<and>
   (''pB'', mk_page ''Intro'' ''1'' []) \<in> set funnel5 \<and>
   obj_get funnel5_deleted ''pB'' = None \<and>
   routing (reindexEventRouting funnel5 funnel5_deleted
      [(''jump'', mk_event ''5''), (''back'', mk_event ''1'')]) ! 0 = (''jump'', mk_event ''4'') \<and>
   routing (reindexEventRouting funnel5 funnel5_deleted
      [(''jump'', mk_event ''5''), (''back'', mk_event ''1'')]) ! 1 = (''back'', mk_event ''1'')"
proof -
  let ?rt = "[(''jump'', mk_event ''5''), (''back'', mk_event ''1'')]"
  let ?pm = "buildPathMap funnel5 funnel5_deleted"
  have a1: "(0::nat) < length ?rt" and b1: "(1::nat) < length ?rt" by simp_all
  have a2: "?rt ! 0 = (''jump'', mk_event ''5'')" and b2: "?rt ! 1 = (''back'', mk_event ''1'')"
    by simp_all
  have a3: "route (mk_event ''5'') = Some \<lparr>to = Some ''5'', conditions = None\<rparr>"
    and b3: "route (mk_event ''1'') = Some \<lparr>to = Some ''1'', conditions = None\<rparr>"
    by (simp_all add: mk_event_def)
  have a4: "to \<lparr>to = Some ''5'', conditions = None\<rparr> = Some ''5''"
    and b4: "to \<lparr>to = Some ''1'', conditions = None\<rparr> = Some ''1''" by simp_all
  have a5: "''5'' \<noteq> []" and b5: "''1'' \<noteq> []" by simp_all
  have a6: "\<not> wasSequential (ownerPath (obj_get (buildEventOwnerMap funnel5 ?rt) ''jump'') funnel5) ''5''"
    by code_simp
  have b6: "\<not> wasSequential (ownerPath (obj_get (buildEventOwnerMap funnel5 ?rt) ''back'') funnel5) ''1''"
    by code_simp
  have h7: "[] \<notin> set (page_paths funnel5_deleted)" by code_simp
  have d: "distinct (page_paths funnel5)" by code_simp
  have mC: "(''pC'', mk_page ''Offer'' ''5'' []) \<in> set funnel5" by (simp add: funnel5_def)
  have mB: "(''pB'', mk_page ''Intro'' ''1'' []) \<in> set funnel5" by (simp add: funnel5_def)
  have pC: "path (mk_page ''Offer'' ''5'' []) = ''5''" and pB: "path (mk_page ''Intro'' ''1'' []) = ''1''"
    by (simp_all add: mk_page_def)
  have nC: "obj_get funnel5_deleted ''pC'' = Some (mk_page ''Offer'' ''4'' [])" by code_simp
  have nB: "obj_get funnel5_deleted ''pB'' = None" by code_simp
  have p4: "path (mk_page ''Offer'' ''4'' []) = ''4''" by (simp add: mk_page_def)
  have e4: "mk_event ''5''\<lparr>route := Some (\<lparr>to = Some ''5'', conditions = None\<rparr>\<lparr>to := Some ''4'',
      conditions := map_option (map (migrateCondition ?pm)) (conditions \<lparr>to = Some ''5'', conditions = None\<rparr>)\<rparr>)\<rparr>
      = mk_event ''4''"
    by (simp add: mk_event_def)
  have e1: "mk_event ''1''\<lparr>route := Some (\<lparr>to = Some ''1'', conditions = None\<rparr>\<lparr>to := Some ''1'',
      conditions := map_option (map (migrateCondition ?pm)) (conditions \<lparr>to = Some ''1'', conditions = None\<rparr>)\<rparr>)\<rparr>
      = mk_event ''1''"
    by (simp add: mk_event_def)
  from custom_route_rule [OF a1 a2 a3 a4 a5 a6 h7, of "''pC''" "mk_page ''Offer'' ''5'' []"]
    d mC pC nC p4 e4
  have r0: "routing (reindexEventRouting funnel5 funnel5_deleted ?rt) ! 0 = (''jump'', mk_event ''4'')"
    by simp
  from custom_route_rule [OF b1 b2 b3 b4 b5 b6 h7, of "''pB''" "mk_page ''Intro'' ''1'' []"]
    d mB pB nB e1
  have r1: "routing (reindexEventRouting funnel5 funnel5_deleted ?rt) ! 1 = (''back'', mk_event ''1'')"
    by simp
  from a6 b6 h7 d mC nC mB nB r0 r1 show ?thesis by simp
qed

text \<open>
  C10. Last writer wins: when several pages reference the same event name, the
  event-owner map gives the event to the last of them in collection order, and the Route
  Migrator decides between the sequential and the custom rule from that page's path alone.
\<close>

theorem last_writer_owns_event:
  assumes "pgs = earlier @ [(k, p)] @ later"
    and "references p e" and "e \<in> set (map fst rt)"
    and "\<forall>(k', p') \<in> set later. \<not> references p' e"
  shows "obj_get (buildEventOwnerMap pgs rt) e = Some k \<and>
     (distinct (map fst pgs) \<and> k \<noteq> [] \<and> i < length rt \<and> rt ! i = (e, ev) \<and>
      route ev = Some r \<and> to r = Some t \<and> t \<noteq> [] \<longrightarrow>
      routing (reindexEventRouting pgs new rt) ! i =
        (e, ev\<lparr>route := Some (r\<lparr>to := Some
              (case (wasSequential (Some (path p)) t, obj_get new k) of
                 (True, Some np) \<Rightarrow> num_toString (num_plus1 (parseInt (path np)))
               | _ \<Rightarrow> (case pathMap_get (buildPathMap pgs new) t of Some v \<Rightarrow> v | None \<Rightarrow> t)),
            conditions := map_option (map (migrateCondition (buildPathMap pgs new))) (conditions r)\<rparr>)\<rparr>))"
proof (intro conjI impI)
  show own: "obj_get (buildEventOwnerMap pgs rt) e = Some k"
    unfolding assms(1) using assms(2,3,4) by (rule buildEventOwnerMap_last_writer)
  assume a: "distinct (map fst pgs) \<and> k \<noteq> [] \<and> i < length rt \<and> rt ! i = (e, ev) \<and>
      route ev = Some r \<and> to r = Some t \<and> t \<noteq> []"
  have "(k, p) \<in> set pgs" using assms(1) by simp
  with a have g: "obj_get pgs k = Some p" by (simp add: obj_get_distinct)
  have o: "ownerPath (obj_get (buildEventOwnerMap pgs rt) e) pgs = Some (path p)"
    using own g a by (simp add: ownerPath_def)
  have n: "ownerPath (obj_get (buildEventOwnerMap pgs rt) e) new = map_option path (obj_get new k)"
    using own a by (simp add: ownerPath_def)
  have "fst (migrateEvent (buildPathMap pgs new) (buildEventOwnerMap pgs rt) pgs new e ev) =
        ev\<lparr>route := Some (r\<lparr>to := Some
              (case (wasSequential (Some (path p)) t, obj_get new k) of
                 (True, Some np) \<Rightarrow> num_toString (num_plus1 (parseInt (path np)))
               | _ \<Rightarrow> (case pathMap_get (buildPathMap pgs new) t of Some v \<Rightarrow> v | None \<Rightarrow> t)),
            conditions := map_option (map (migrateCondition (buildPathMap pgs new))) (conditions r)\<rparr>)\<rparr>"
    using a o n by (simp add: migrateEvent_def Let_def split: option.splits bool.splits)
  with a show "routing (reindexEventRouting pgs new rt) ! i =
        (e, ev\<lparr>route := Some (r\<lparr>to := Some
              (case (wasSequential (Some (path p)) t, obj_get new k) of
                 (True, Some np) \<Rightarrow> num_toString (num_plus1 (parseInt (path np)))
               | _ \<Rightarrow> (case pathMap_get (buildPathMap pgs new) t of Some v \<Rightarrow> v | None \<Rightarrow> t)),
            conditions := map_option (map (migrateCondition (buildPathMap pgs new))) (conditions r)\<rparr>)\<rparr>)"
    using reindexEventRouting_nth [of i rt e ev pgs new] by simp
qed

theorem last_writer_owns_event_witness:
  "funnel_shared = [(''p1'', mk_page ''Intro'' ''1'' [(''_on_click'', JStr ''go'')]),
                    (''p2'', mk_page ''Age'' ''2'' [])] @
                   [(''p3'', mk_page ''Goal'' ''3'' [(''_on_skip'', JStr ''go'')])] @
                   [(''p4'', mk_page ''Result'' ''4'' [])] \<and>
   references (mk_page ''Intro'' ''1'' [(''_on_click'', JStr ''go'')]) ''go'' \<and>
   references (mk_page ''Goal'' ''3'' [(''_on_skip'', JStr ''go'')]) ''go'' \<and>
   \<not> references (mk_page ''Result'' ''4'' []) ''go'' \<and>
   ''go'' \<in> set (map fst [(''go'', mk_event ''2'')]) \<and>
   distinct (map fst funnel_shared) \<and>
   obj_get (buildEventOwnerMap funnel_shared [(''go'', mk_event ''2'')]) ''go'' = Some ''p3'' \<and>
   routing (reindexEventRouting funnel_shared funnel_swapped [(''go'', mk_event ''2'')]) ! 0 =
     (''go'', mk_event ''1'')"
proof -
  let ?rt = "[(''go'', mk_event ''2'')]"
  let ?p1 = "mk_page ''Intro'' ''1'' [(''_on_click'', JStr ''go'')]"
  let ?p3 = "mk_page ''Goal'' ''3'' [(''_on_skip'', JStr ''go'')]"
  let ?p4 = "mk_page ''Result'' ''4'' []"
  let ?r = "\<lparr>to = Some ''2'', conditions = None\<rparr>"
  have h1: "funnel_shared =
      [(''p1'', ?p1), (''p2'', mk_page ''Age'' ''2'' [])] @ [(''p3'', ?p3)] @ [(''p4'', ?p4)]"
    by (simp add: funnel_shared_def)
  have h2: "references ?p3 ''go''" by code_simp
  have h2': "references ?p1 ''go''" by code_simp
  have n4: "\<not> references ?p4 ''go''" by code_simp
  have h3: "''go'' \<in> set (map fst ?rt)" by simp
  have h4: "\<forall>(k', p') \<in> set [(''p4'', ?p4)]. \<not> references p' ''go''"
    using n4 by simp
  have d: "distinct (map fst funnel_shared)" by (simp add: funnel_shared_def)
  have a: "''p3'' \<noteq> [] \<and> (0::nat) < length ?rt \<and> ?rt ! 0 = (''go'', mk_event ''2'') \<and>
      route (mk_event ''2'') = Some ?r \<and> to ?r = Some ''2'' \<and> ''2'' \<noteq> []"
    by (simp add: mk_event_def)
  have v: "mk_event ''2''\<lparr>route := Some (?r\<lparr>to := Some
              (case (wasSequential (Some (path ?p3)) ''2'', obj_get funnel_swapped ''p3'') of
                 (True, Some np) \<Rightarrow> num_toString (num_plus1 (parseInt (path np)))
               | _ \<Rightarrow> (case pathMap_get (buildPathMap funnel_shared funnel_swapped) ''2'' of
                          Some v \<Rightarrow> v | None \<Rightarrow> ''2'')),
            conditions := map_option (map (migrateCondition (buildPathMap funnel_shared funnel_swapped)))
              (conditions ?r)\<rparr>)\<rparr> = mk_event ''1''"
    by code_simp
  from last_writer_owns_event [OF h1 h2 h3 h4, of 0 "mk_event ''2''" ?r "''2''" funnel_swapped]
    d a v h1 h2 h2' n4 h3
  show ?thesis by simp
qed

text \<open>
  C3. Condition targets: an entry without a truthy \<open>route.to\<close> is skipped by the loop before
  its conditions are looked at.  After swapping the first two pages the path map sends
  \<open>"2"\<close> to \<open>"1"\<close>; the branch whose default route is empty keeps its condition target
  \<open>"2"\<close>, while the same branch with a default route gets \<open>"1"\<close>.
\<close>

theorem conditions_skipped_without_route_to:
  "pathMap_get (buildPathMap funnel_shared funnel_swapped) ''2'' = Some ''1'' \<and>
   routing (reindexEventRouting funnel_shared funnel_swapped
      [(''branch'', branch_event '''' ''2''), (''fork'', branch_event ''3'' ''2'')]) =
     [(''branch'', branch_event '''' ''2''), (''fork'', branch_event ''3'' ''1'')]"
  by code_simp


text \<open>
  For an entry that has a truthy \<open>route.to\<close>, every condition target is rewritten by the
  path map alone, whichever rule applied to \<open>route.to\<close>.
\<close>

lemma condition_targets_with_route_to:
  assumes "i < length rt" and "rt ! i = (e, ev)"
    and "route ev = Some r" and "to r = Some t" and "t \<noteq> []"
  shows "map_option conditions (route (snd (routing (reindexEventRouting old new rt) ! i))) =
     Some (map_option (map (migrateCondition (buildPathMap old new))) (conditions r))"
  using reindexEventRouting_nth [OF assms(1,2), of old new] assms(3,4,5)
  by (simp add: migrateEvent_def Let_def split_beta split: option.splits bool.splits)

subsection \<open>Validator\<close>

lemma split_at_quote:
  "c \<notin> set a \<Longrightarrow> c \<notin> set b \<Longrightarrow> a @ c # r1 = b @ c # r2 \<Longrightarrow> a = b \<and> r1 = r2"
proof (induction a arbitrary: b)
  case Nil
  then show ?case by (cases b) auto
next
  case (Cons x a)
  then show ?case by (cases b) auto
qed

lemma digit_char_not_quote: "d < 10 \<Longrightarrow> digit_char d \<noteq> CHR 0x22"
  by (simp add: digit_char_def char_of_eq_iff take_bit_digit)

lemma digits10_no_quote: "CHR 0x22 \<notin> set (digits10 n)"
proof
  assume "CHR 0x22 \<in> set (digits10 n)"
  then obtain d where "d < 10" "CHR 0x22 = digit_char d"
    using digits10_all by blast
  then show False
    using digit_char_not_quote [of d] by simp
qed

lemma int_toString_no_quote: "count_list (int_toString i) (CHR 0x22) = 0"
  using digits10_no_quote by (simp add: int_toString_def)

lemma count_dangling_message:
  "count_list (dangling_message n t) (CHR 0x22) = 4 + count_list n (CHR 0x22) + count_list t (CHR 0x22)"
  by (simp add: dangling_message_def dquote_def)

lemma dangling_message_inj:
  assumes "CHR 0x22 \<notin> set n0" "CHR 0x22 \<notin> set t0"
    and "dangling_message n t = dangling_message n0 t0"
  shows "n = n0"
proof -
  have "count_list (dangling_message n t) (CHR 0x22) = count_list (dangling_message n0 t0) (CHR 0x22)"
    using assms(3) by simp
  then have "count_list n (CHR 0x22) = 0"
    using assms(1,2) by (simp add: count_dangling_message)
  then have q: "CHR 0x22 \<notin> set n" by (simp add: count_list_0_iff)
  from assms(3) have "n @ CHR 0x22 # ('' routes to non-existent path: '' @ dquote @ t @ dquote) =
      n0 @ CHR 0x22 # ('' routes to non-existent path: '' @ dquote @ t0 @ dquote)"
    by (simp add: dangling_message_def dquote_def)
  with q assms(1) show ?thesis by (blast dest: split_at_quote)
qed

lemma condition_message_differs:
  assumes "CHR 0x22 \<notin> set n0" "CHR 0x22 \<notin> set t0"
  shows "condition_target_message n k t \<noteq> dangling_message n0 t0"
proof
  assume e: "condition_target_message n k t = dangling_message n0 t0"
  have "count_list (condition_target_message n k t) (CHR 0x22) =
      4 + count_list n (CHR 0x22) + count_list t (CHR 0x22)"
    by (simp add: condition_target_message_def dquote_def int_toString_no_quote)
  then have "count_list n (CHR 0x22) = 0"
    using e assms by (simp add: count_dangling_message)
  then have q: "CHR 0x22 \<notin> set n" by (simp add: count_list_0_iff)
  from e have "n @ CHR 0x22 # ('' condition #'' @ int_toString (int k + 1)
           @ '' routes to non-existent path: '' @ dquote @ t @ dquote) =
      n0 @ CHR 0x22 # ('' routes to non-existent path: '' @ dquote @ t0 @ dquote)"
    by (simp add: dangling_message_def condition_target_message_def dquote_def)
  with q assms(1) have "'' condition #'' @ int_toString (int k + 1)
           @ '' routes to non-existent path: '' @ dquote @ t @ dquote =
      '' routes to non-existent path: '' @ dquote @ t0 @ dquote"
    by (blast dest: split_at_quote)
  then show False by simp
qed

lemma route_to_issue_dangling:
  assumes "route ev = Some r" "to r = Some t" "t \<noteq> []" "t \<notin> set vp"
  shows "route_to_issue vp (n, ev) = [dangling_issue n t]"
  using assms by (simp add: route_to_issue_def)

lemma route_to_issue_other:
  assumes "CHR 0x22 \<notin> set n0" "CHR 0x22 \<notin> set t0" "n \<noteq> n0"
  shows "dangling_issue n0 t0 \<notin> set (route_to_issue vp (n, ev))"
proof
  assume "dangling_issue n0 t0 \<in> set (route_to_issue vp (n, ev))"
  then obtain t where "dangling_issue n0 t0 = dangling_issue n t"
    by (auto simp add: route_to_issue_def split: option.splits if_splits)
  then have "dangling_message n t = dangling_message n0 t0"
    by (simp add: dangling_issue_def)
  from dangling_message_inj [OF assms(1,2) this] assms(3) show False by simp
qed

lemma conditions_issues_other:
  assumes "CHR 0x22 \<notin> set n0" "CHR 0x22 \<notin> set t0"
  shows "dangling_issue n0 t0 \<notin> set (conditions_issues vp (n, ev))"
proof
  assume "dangling_issue n0 t0 \<in> set (conditions_issues vp (n, ev))"
  then obtain k t where "vmessage (dangling_issue n0 t0) = condition_target_message n k t"
    by (auto simp add: conditions_issues_def condition_issue_def dangling_issue_def
        split: option.splits if_splits)
  then have "condition_target_message n k t = dangling_message n0 t0"
    by (simp add: dangling_issue_def)
  with condition_message_differs [OF assms, of n k t] show False by simp
qed

lemma other_checks:
  "dangling_issue n t \<notin> set (concat (map path_issue pgs))"
  "dangling_issue n t \<notin> set (sequence_issue pgs)"
  "dangling_issue n t \<notin> set (concat (map (template_issue tpls) pgs))"
  "dangling_issue n t \<notin> set (concat (map (event_ref_issue rt) pgs))"
  "dangling_issue n t \<notin> set (concat (map content_issue pgs))"
  "dangling_issue n t \<notin> set (theme_issues th)"
  "dangling_issue n t \<notin> set (preview_issue pgs)"
proof -
  show "dangling_issue n t \<notin> set (concat (map path_issue pgs))"
    by (auto simp add: dangling_issue_def path_issue_def split: option.splits if_splits)
  show "dangling_issue n t \<notin> set (sequence_issue pgs)"
    by (simp add: dangling_issue_def sequence_issue_def Let_def)
  show "dangling_issue n t \<notin> set (concat (map (template_issue tpls) pgs))"
    by (auto simp add: dangling_issue_def template_issue_def split: if_splits)
  show "dangling_issue n t \<notin> set (concat (map (event_ref_issue rt) pgs))"
    by (auto simp add: dangling_issue_def event_ref_issue_def split: if_splits json.splits)
  show "dangling_issue n t \<notin> set (concat (map content_issue pgs))"
    by (auto simp add: dangling_issue_def content_issue_def split: if_splits)
  show "dangling_issue n t \<notin> set (theme_issues th)"
    by (simp add: dangling_issue_def theme_issues_def)
  show "dangling_issue n t \<notin> set (preview_issue pgs)"
    by (simp add: dangling_issue_def preview_issue_def)
qed

lemma count_routing_issues:
  assumes "distinct (map fst rt)" "i < length rt" "rt ! i = (n0, ev)"
    and "route ev = Some r" "to r = Some t0" "t0 \<noteq> []" "t0 \<notin> set (page_paths pgs)"
    and "CHR 0x22 \<notin> set n0" "CHR 0x22 \<notin> set t0"
  shows "count_list (routing_issues pgs rt) (dangling_issue n0 t0) = 1"
proof -
  let ?vp = "page_paths pgs"
  let ?f = "\<lambda>entry. route_to_issue ?vp entry @ conditions_issues ?vp entry"
  have rt: "rt = take i rt @ (n0, ev) # drop (Suc i) rt"
    using id_take_nth_drop [of i rt] assms(2,3) by simp
  have others: "\<And>es. \<forall>(n, e) \<in> set es. n \<noteq> n0 \<Longrightarrow>
      count_list (concat (map ?f es)) (dangling_issue n0 t0) = 0"
  proof -
    fix es :: "event obj"
    assume ne: "\<forall>(n, e) \<in> set es. n \<noteq> n0"
    have "dangling_issue n0 t0 \<notin> set (concat (map ?f es))"
    proof
      assume "dangling_issue n0 t0 \<in> set (concat (map ?f es))"
      then obtain n e where m: "(n, e) \<in> set es" and
        "dangling_issue n0 t0 \<in> set (route_to_issue ?vp (n, e)) \<or>
         dangling_issue n0 t0 \<in> set (conditions_issues ?vp (n, e))"
        by auto
      moreover have "n \<noteq> n0" using m ne by auto
      ultimately show False
        using route_to_issue_other [OF assms(8,9), of n ?vp e]
          conditions_issues_other [OF assms(8,9), of ?vp n e] by blast
    qed
    then show "count_list (concat (map ?f es)) (dangling_issue n0 t0) = 0"
      by (simp add: count_list_0_iff)
  qed
  have d: "distinct (map fst (take i rt) @ n0 # map fst (drop (Suc i) rt))"
    using assms(1) rt by (metis fst_conv list.simps(9) map_append)
  have b: "\<forall>(n, e) \<in> set (take i rt). n \<noteq> n0"
  proof clarify
    fix e assume "(n0, e) \<in> set (take i rt)"
    then have "n0 \<in> set (map fst (take i rt))" by force
    with d show False by simp
  qed
  have a: "\<forall>(n, e) \<in> set (drop (Suc i) rt). n \<noteq> n0"
  proof clarify
    fix e assume "(n0, e) \<in> set (drop (Suc i) rt)"
    then have "n0 \<in> set (map fst (drop (Suc i) rt))" by force
    with d show False by simp
  qed
  have self: "count_list (?f (n0, ev)) (dangling_issue n0 t0) = 1"
    using route_to_issue_dangling [OF assms(4,5,6,7), of n0]
      conditions_issues_other [OF assms(8,9), of ?vp n0 ev]
    by (simp add: count_list_0_iff)
  have "routing_issues pgs rt = concat (map ?f (take i rt)) @ ?f (n0, ev) @ concat (map ?f (drop (Suc i) rt))"
    by (subst rt) (simp add: routing_issues_def Let_def)
  then show ?thesis
    using others [OF b] others [OF a] self by simp
qed

text \<open>
  C6. Validator soundness: for a routing entry whose (non-empty) \<open>route.to\<close> is the path of
  no page, the check of that \<open>route.to\<close> yields exactly one issue; it has error severity, its
  message names the event and the target, and it is in the result of \<open>validateConfig\<close>.
  When the event name and the target contain no double quote (and the routing table has
  one entry per name, as every object has), no other issue of the result equals it.
  \<open>validateConfig\<close> is a total function of the configuration alone.
\<close>

theorem validator_soundness:
  assumes "i < length (event_routing cfg)" and "event_routing cfg ! i = (eventName, ev)"
    and "route ev = Some r" and "to r = Some tgt" and "tgt \<noteq> []"
    and "tgt \<notin> set (page_paths (pages cfg))"
  shows "route_to_issue (page_paths (pages cfg)) (eventName, ev) = [dangling_issue eventName tgt] \<and>
     dangling_issue eventName tgt \<in> set (validateConfig cfg) \<and>
     vtype (dangling_issue eventName tgt) = IssueError \<and>
     vmessage (dangling_issue eventName tgt) =
       ''Event '' @ dquote @ eventName @ dquote @ '' routes to non-existent path: '' @ dquote @ tgt @ dquote \<and>
     (distinct (map fst (event_routing cfg)) \<and> CHR 0x22 \<notin> set eventName \<and> CHR 0x22 \<notin> set tgt \<longrightarrow>
        count_list (validateConfig cfg) (dangling_issue eventName tgt) = 1)"
proof (intro conjI impI)
  let ?vp = "page_paths (pages cfg)"
  show one: "route_to_issue ?vp (eventName, ev) = [dangling_issue eventName tgt]"
    using assms(3,4,5,6) by (rule route_to_issue_dangling)
  have "(eventName, ev) \<in> set (event_routing cfg)"
    using assms(1,2) nth_mem by fastforce
  then have "dangling_issue eventName tgt \<in> set (routing_issues (pages cfg) (event_routing cfg))"
    using one by (force simp add: routing_issues_def Let_def)
  then show "dangling_issue eventName tgt \<in> set (validateConfig cfg)"
    by (simp add: validateConfig_def)
  show "vtype (dangling_issue eventName tgt) = IssueError"
    by (simp add: dangling_issue_def)
  show "vmessage (dangling_issue eventName tgt) =
       ''Event '' @ dquote @ eventName @ dquote @ '' routes to non-existent path: '' @ dquote @ tgt @ dquote"
    by (simp add: dangling_issue_def dangling_message_def)
next
  assume a: "distinct (map fst (event_routing cfg)) \<and> CHR 0x22 \<notin> set eventName \<and> CHR 0x22 \<notin> set tgt"
  then have "count_list (routing_issues (pages cfg) (event_routing cfg)) (dangling_issue eventName tgt) = 1"
    using count_routing_issues [OF _ assms(1,2,3,4,5,6)] by simp
  moreover have
    "count_list (concat (map path_issue (pages cfg))) (dangling_issue eventName tgt) = 0"
    "count_list (sequence_issue (pages cfg)) (dangling_issue eventName tgt) = 0"
    "count_list (concat (map (template_issue (templates cfg)) (pages cfg))) (dangling_issue eventName tgt) = 0"
    "count_list (concat (map (event_ref_issue (event_routing cfg)) (pages cfg))) (dangling_issue eventName tgt) = 0"
    "count_list (concat (map content_issue (pages cfg))) (dangling_issue eventName tgt) = 0"
    "count_list (theme_issues (theme cfg)) (dangling_issue eventName tgt) = 0"
    "count_list (preview_issue (pages cfg)) (dangling_issue eventName tgt) = 0"
    by (simp_all only: count_list_0_iff other_checks not_False_eq_True)
  ultimately show "count_list (validateConfig cfg) (dangling_issue eventName tgt) = 1"
    by (simp only: validateConfig_def count_list_append)
qed

theorem validator_soundness_witness:
  "''9'' \<notin> set (page_paths funnel4) \<and>
   distinct (map fst [(''go'', mk_event ''9''), (''fork'', branch_event '''' ''7'')]) \<and>
   CHR 0x22 \<notin> set ''go'' \<and> CHR 0x22 \<notin> set ''9'' \<and>
   count_list (validateConfig (config (mk_session funnel4
        [(''go'', mk_event ''9''), (''fork'', branch_event '''' ''7'')])))
     (dangling_issue ''go'' ''9'') = 1 \<and>
   dangling_issue ''go'' ''9'' \<in> set (validateConfig (config (mk_session funnel4
        [(''go'', mk_event ''9''), (''fork'', branch_event '''' ''7'')])))"
proof -
  let ?rt = "[(''go'', mk_event ''9''), (''fork'', branch_event '''' ''7'')]"
  let ?cfg = "config (mk_session funnel4 ?rt)"
  have rt: "event_routing ?cfg = ?rt" and pg: "pages ?cfg = funnel4"
    by (simp_all add: mk_session_def)
  have h1: "0 < length (event_routing ?cfg)" by (simp add: rt)
  have h2: "event_routing ?cfg ! 0 = (''go'', mk_event ''9'')" by (simp add: rt)
  have h3: "route (mk_event ''9'') = Some \<lparr>to = Some ''9'', conditions = None\<rparr>"
    by (simp add: mk_event_def)
  have h4: "to \<lparr>to = Some ''9'', conditions = None\<rparr> = Some ''9''" by simp
  have h5: "''9'' \<noteq> []" by simp
  have h6: "''9'' \<notin> set (page_paths funnel4)" by code_simp
  have h6': "''9'' \<notin> set (page_paths (pages ?cfg))" using h6 by (simp add: pg)
  have d: "distinct (map fst ?rt)" by simp
  have q: "CHR 0x22 \<notin> set ''go''" "CHR 0x22 \<notin> set ''9''" by simp_all
  from validator_soundness [OF h1 h2 h3 h4 h5 h6'] h6 d q rt
  show ?thesis by simp
qed

subsection \<open>Deleting a page\<close>

lemma obj_set_fresh: "k \<notin> set (map fst ob) \<Longrightarrow> obj_set k v ob = ob @ [(k, v)]"
  by (induction ob) auto

lemma foldl_obj_set_distinct:
  "distinct (map fst acc @ map fst es) \<Longrightarrow>
     foldl (\<lambda>ob (k, v). obj_set k v ob) acc es = acc @ es"
proof (induction es arbitrary: acc)
  case Nil
  then show ?case by simp
next
  case (Cons e es)
  obtain k v where e: "e = (k, v)" by (cases e)
  from Cons.prems e have f: "k \<notin> set (map fst acc)" by auto
  from Cons.prems e have "distinct (map fst (acc @ [(k, v)]) @ map fst es)" by auto
  from Cons.IH [OF this] f e show ?case by (simp add: obj_set_fresh)
qed

lemma fromEntries_distinct: "distinct (map fst es) \<Longrightarrow> fromEntries es = es"
  using foldl_obj_set_distinct [of "[]" es] by (simp add: fromEntries_def)

lemma keys_obj_set: "fst ` set (obj_set k v ob) = insert k (fst ` set ob)"
  by (induction ob) auto

lemma keys_foldl_obj_set:
  "fst ` set (foldl (\<lambda>ob (k, v). obj_set k v ob) acc es) = fst ` set acc \<union> fst ` set es"
proof (induction es arbitrary: acc)
  case Nil
  then show ?case by simp
next
  case (Cons e es)
  obtain k v where e: "e = (k, v)" by (cases e)
  have "fst ` set (foldl (\<lambda>ob (k, v). obj_set k v ob) (obj_set k v acc) es) =
      fst ` set (obj_set k v acc) \<union> fst ` set es"
    by (rule Cons.IH)
  then show ?case using e by (simp add: keys_obj_set)
qed

lemma keys_fromEntries: "fst ` set (fromEntries es) = fst ` set es"
  by (simp add: fromEntries_def keys_foldl_obj_set)

lemma keys_reindexPages: "map fst (reindexPages ps) = map fst ps"
  by (rule nth_equalityI) (simp_all add: reindexPages_length reindexPages_nth)

text \<open>
  C8. Delete-page guard: \<open>deletePage\<close> on a page id that is not in the collection changes
  nothing at all; on the only remaining page it changes nothing but the notification
  (a warning); when the page exists and there is more than one page, the new document has
  the page removed, the remaining pages reindexed and the routes migrated against the
  pre-edit pages, all in one \<open>setConfig\<close> (one history entry), every other part of the
  document unchanged.
\<close>

theorem deletePage_guard:
  "(pageId \<notin> set (map fst (pages (config st))) \<longrightarrow> deletePage pageId st = st) \<and>
   (pageId \<in> set (map fst (pages (config st))) \<and> length (pages (config st)) \<le> 1 \<longrightarrow>
      deletePage pageId st = st\<lparr>notification := Some (''Cannot delete the last page.'', warning)\<rparr>) \<and>
   (pageId \<in> set (map fst (pages (config st))) \<and> length (pages (config st)) > 1 \<longrightarrow>
      config (deletePage pageId st) =
        (config st)\<lparr>pages := deleted_pages pageId (pages (config st)),
                     event_routing := routing (reindexEventRouting (pages (config st))
                        (deleted_pages pageId (pages (config st))) (event_routing (config st)))\<rparr> \<and>
      past (deletePage pageId st) = slice_last MAX_HISTORY (past st @ [config st]) \<and>
      future (deletePage pageId st) = [] \<and>
      notification (deletePage pageId st) = Some (''Page deleted.'', info) \<and>
      pageId \<notin> set (map fst (pages (config (deletePage pageId st)))) \<and>
      paths_ok (pages (config (deletePage pageId st))) \<and>
      (distinct (map fst (pages (config st))) \<longrightarrow>
         map fst (pages (config (deletePage pageId st))) =
           filter (\<lambda>key. key \<noteq> pageId) (map fst (pages (config st)))))"
proof (intro conjI impI)
  show "pageId \<notin> set (map fst (pages (config st))) \<Longrightarrow> deletePage pageId st = st"
    by (simp add: deletePage_def)
  show "pageId \<in> set (map fst (pages (config st))) \<and> length (pages (config st)) \<le> 1 \<Longrightarrow>
      deletePage pageId st = st\<lparr>notification := Some (''Cannot delete the last page.'', warning)\<rparr>"
    by (simp add: deletePage_def notify_def Let_def)
next
  assume a: "pageId \<in> set (map fst (pages (config st))) \<and> length (pages (config st)) > 1"
  then have c: "config (deletePage pageId st) =
        (config st)\<lparr>pages := deleted_pages pageId (pages (config st)),
                     event_routing := routing (reindexEventRouting (pages (config st))
                        (deleted_pages pageId (pages (config st))) (event_routing (config st)))\<rparr>"
    by (simp add: deletePage_def notify_def setActivePageId_def setConfig_def Let_def deleted_pages_def)
  then show "config (deletePage pageId st) =
        (config st)\<lparr>pages := deleted_pages pageId (pages (config st)),
                     event_routing := routing (reindexEventRouting (pages (config st))
                        (deleted_pages pageId (pages (config st))) (event_routing (config st)))\<rparr>" .
  from a show "past (deletePage pageId st) = slice_last MAX_HISTORY (past st @ [config st])"
    by (simp add: deletePage_def notify_def setActivePageId_def setConfig_def Let_def)
  from a show "future (deletePage pageId st) = []"
    by (simp add: deletePage_def notify_def setActivePageId_def setConfig_def Let_def)
  from a show "notification (deletePage pageId st) = Some (''Page deleted.'', info)"
    by (simp add: deletePage_def notify_def setActivePageId_def setConfig_def Let_def)
  have p: "pages (config (deletePage pageId st)) = deleted_pages pageId (pages (config st))"
    using c by simp
  show "pageId \<notin> set (map fst (pages (config (deletePage pageId st))))"
    unfolding p deleted_pages_def keys_reindexPages by (auto simp add: keys_fromEntries)
  show "paths_ok (pages (config (deletePage pageId st)))"
    unfolding p deleted_pages_def by (rule paths_ok_reindexPages)
  assume d: "distinct (map fst (pages (config st)))"
  have "distinct (map fst (filter (\<lambda>(key, p). key \<noteq> pageId) (pages (config st))))"
    using d by (simp add: distinct_map_filter)
  then have "fromEntries (filter (\<lambda>(key, p). key \<noteq> pageId) (pages (config st))) =
      filter (\<lambda>(key, p). key \<noteq> pageId) (pages (config st))"
    by (rule fromEntries_distinct)
  then show "map fst (pages (config (deletePage pageId st))) =
           filter (\<lambda>key. key \<noteq> pageId) (map fst (pages (config st)))"
    unfolding p deleted_pages_def keys_reindexPages
    by (simp add: filter_map comp_def case_prod_unfold)
qed

theorem deletePage_guard_witness:
  "''zz'' \<notin> set (map fst (pages (config (mk_session funnel5 [(''jump'', mk_event ''5'')])))) \<and>
   deletePage ''zz'' (mk_session funnel5 [(''jump'', mk_event ''5'')]) =
     mk_session funnel5 [(''jump'', mk_event ''5'')] \<and>
   ''p1'' \<in> set (map fst (pages (config (mk_session [(''p1'', mk_page ''Intro'' ''1'' [])] [])))) \<and>
   length (pages (config (mk_session [(''p1'', mk_page ''Intro'' ''1'' [])] []))) \<le> 1 \<and>
   deletePage ''p1'' (mk_session [(''p1'', mk_page ''Intro'' ''1'' [])] []) =
     (mk_session [(''p1'', mk_page ''Intro'' ''1'' [])] [])
        \<lparr>notification := Some (''Cannot delete the last page.'', warning)\<rparr> \<and>
   ''pB'' \<in> set (map fst (pages (config (mk_session funnel5 [(''jump'', mk_event ''5'')])))) \<and>
   length (pages (config (mk_session funnel5 [(''jump'', mk_event ''5'')]))) > 1 \<and>
   distinct (map fst (pages (config (mk_session funnel5 [(''jump'', mk_event ''5'')])))) \<and>
   map fst (pages (config (deletePage ''pB'' (mk_session funnel5 [(''jump'', mk_event ''5'')])))) =
     [''pA'', ''p3'', ''p4'', ''pC''] \<and>
   page_paths (pages (config (deletePage ''pB'' (mk_session funnel5 [(''jump'', mk_event ''5'')])))) =
     [''1'', ''2'', ''3'', ''4''] \<and>
   event_routing (config (deletePage ''pB'' (mk_session funnel5 [(''jump'', mk_event ''5'')]))) =
     [(''jump'', mk_event ''4'')] \<and>
   past (deletePage ''pB'' (mk_session funnel5 [(''jump'', mk_event ''5'')])) =
     [config (mk_session funnel5 [(''jump'', mk_event ''5'')])]"
proof -
  let ?st = "mk_session funnel5 [(''jump'', mk_event ''5'')]"
  let ?s1 = "mk_session [(''p1'', mk_page ''Intro'' ''1'' [])] []"
  have pg: "pages (config ?st) = funnel5" and rt: "event_routing (config ?st) = [(''jump'', mk_event ''5'')]"
    and ps: "past ?st = []"
    by (simp_all add: mk_session_def)
  have a: "''zz'' \<notin> set (map fst (pages (config ?st)))"
    unfolding pg by (simp add: funnel5_def)
  have b: "''p1'' \<in> set (map fst (pages (config ?s1))) \<and> length (pages (config ?s1)) \<le> 1"
    by (simp add: mk_session_def)
  have c: "''pB'' \<in> set (map fst (pages (config ?st))) \<and> length (pages (config ?st)) > 1"
    unfolding pg by (simp add: funnel5_def)
  have d: "distinct (map fst (pages (config ?st)))"
    unfolding pg by (simp add: funnel5_def)
  have k: "filter (\<lambda>key. key \<noteq> ''pB'') (map fst (pages (config ?st))) = [''pA'', ''p3'', ''p4'', ''pC'']"
    unfolding pg by (simp add: funnel5_def)
  have pp: "page_paths (deleted_pages ''pB'' funnel5) = [''1'', ''2'', ''3'', ''4'']"
    by code_simp
  have er: "routing (reindexEventRouting funnel5 (deleted_pages ''pB'' funnel5) [(''jump'', mk_event ''5'')]) =
      [(''jump'', mk_event ''4'')]"
    by code_simp
  have sl: "slice_last MAX_HISTORY ([] @ [config ?st]) = [config ?st]"
    by (simp add: slice_last_def MAX_HISTORY_def)
  from deletePage_guard [of "''zz''" ?st] a
  have r1: "deletePage ''zz'' ?st = ?st" by simp
  from deletePage_guard [of "''p1''" ?s1] b
  have r2: "deletePage ''p1'' ?s1 = ?s1\<lparr>notification := Some (''Cannot delete the last page.'', warning)\<rparr>"
    by simp
  note R = deletePage_guard [of "''pB''" ?st, THEN conjunct2, THEN conjunct2, THEN mp, OF c]
  note r3 = R [THEN conjunct1]
  note r4 = R [THEN conjunct2, THEN conjunct1]
  note r5 = R [THEN conjunct2, THEN conjunct2, THEN conjunct2, THEN conjunct2, THEN conjunct2,
      THEN conjunct2, THEN mp, OF d]
  have e1: "map fst (pages (config (deletePage ''pB'' ?st))) = [''pA'', ''p3'', ''p4'', ''pC'']"
    using r5 k by simp
  have e2: "page_paths (pages (config (deletePage ''pB'' ?st))) = [''1'', ''2'', ''3'', ''4'']"
    using r3 pp by (simp add: pg)
  have e3: "event_routing (config (deletePage ''pB'' ?st)) = [(''jump'', mk_event ''4'')]"
    using r3 er by (simp add: pg rt)
  have e4: "past (deletePage ''pB'' ?st) = [config ?st]"
    using r4 sl by (simp add: ps)
  from a r1 b r2 c d e1 e2 e3 e4 show ?thesis by simp
qed

subsection \<open>Import\<close>

lemma get_prop_set_prop:
  "is_obj j \<Longrightarrow> get_prop (set_prop k v j) k' = (if k' = k then Some v else get_prop j k')"
  by (cases j) (simp_all add: is_obj_def get_prop_def set_prop_def obj_get_obj_set)

lemma is_obj_set_prop: "is_obj (set_prop k v j) = is_obj j"
  by (cases j) (simp_all add: is_obj_def set_prop_def)

lemma is_obj_backfill: "is_obj (backfill d k x) = is_obj x"
  by (simp add: backfill_def is_obj_set_prop)

lemma get_prop_backfill:
  "is_obj x \<Longrightarrow>
     get_prop (backfill d k x) k' = (if k' = k \<and> \<not> prop_truthy x k then Some d else get_prop x k')"
  by (simp add: backfill_def get_prop_set_prop)

lemma prop_truthy_backfill:
  "is_obj x \<Longrightarrow> truthy d \<Longrightarrow>
     prop_truthy (backfill d k x) k' = (if k' = k then True else prop_truthy x k')"
  by (simp add: prop_truthy_def get_prop_backfill split: option.splits)

lemma get_prop_backfill_all:
  "is_obj th \<Longrightarrow>
     get_prop (foldl (\<lambda>t k. backfill (JObj []) k t) th ks) k' =
       (if k' \<in> set ks \<and> \<not> prop_truthy th k' then Some (JObj []) else get_prop th k')"
proof (induction ks arbitrary: th)
  case Nil
  then show ?case by simp
next
  case (Cons k ks)
  let ?t = "backfill (JObj []) k th"
  have o: "is_obj ?t" using Cons.prems by (simp add: is_obj_backfill)
  have "get_prop (foldl (\<lambda>t k. backfill (JObj []) k t) ?t ks) k' =
       (if k' \<in> set ks \<and> \<not> prop_truthy ?t k' then Some (JObj []) else get_prop ?t k')"
    by (rule Cons.IH [OF o])
  then show ?case
    using Cons.prems by (auto simp add: prop_truthy_backfill get_prop_backfill)
qed

lemma is_obj_backfill_all: "is_obj (foldl (\<lambda>t k. backfill d k t) th ks) = is_obj th"
  by (induction ks arbitrary: th) (simp_all add: is_obj_backfill)

lemma has_prop_is_obj: "get_prop j k = Some v \<Longrightarrow> is_obj j"
  by (cases j) (simp_all add: get_prop_def is_obj_def)

lemma with_defaults_props:
  assumes "get_prop j ''theme'' = Some th" and "is_obj th"
  shows "get_prop (with_defaults j) k =
     (if k = ''layout'' then (if prop_truthy j ''layout'' then get_prop j ''layout'' else Some default_layout)
      else if k = ''theme'' then Some (foldl (\<lambda>t k. backfill (JObj []) k t) th theme_sections)
      else get_prop j k)"
proof -
  have o: "is_obj j" using assms(1) by (rule has_prop_is_obj)
  let ?j1 = "set_prop ''theme'' (foldl (\<lambda>t k. backfill (JObj []) k t) th theme_sections) j"
  have o1: "is_obj ?j1" using o by (simp add: is_obj_set_prop)
  have l: "prop_truthy ?j1 ''layout'' = prop_truthy j ''layout''"
    using o by (simp add: prop_truthy_def get_prop_set_prop)
  have "with_defaults j = backfill default_layout ''layout'' ?j1"
    using assms(1) by (simp add: with_defaults_def)
  then show ?thesis
    using o o1 l by (simp add: get_prop_backfill get_prop_set_prop)
qed


text \<open>
  C7. Import: when the file does not parse, or the document lacks one of the objects
  \<open>pages\<close>, \<open>theme\<close>, \<open>templates\<close>, \<open>loadConfig\<close> changes nothing in the session but
  the notification, which is an error message.  Otherwise the new document is the
  imported one with defaults filled in, history is reset and a success message is shown:
  every top-level section other than \<open>theme\<close> and \<open>layout\<close> is as imported, a missing
  (falsy) \<open>layout\<close> is the default layout, and each of the six theme sub-sections that is
  missing (falsy) is an empty object, the rest of the theme as imported.
\<close>

theorem loadConfig_import:
  "(\<not> (\<exists>j. parsed = Some j \<and> has_required_sections j) \<longrightarrow>
      loadConfig fileName parsed st = st\<lparr>notification := notification (loadConfig fileName parsed st)\<rparr> \<and>
      (\<exists>msg. notification (loadConfig fileName parsed st) = Some (msg, error))) \<and>
   (parsed = Some j \<and> has_required_sections j \<longrightarrow>
      config (loadConfig fileName parsed st) = with_defaults j \<and>
      past (loadConfig fileName parsed st) = [] \<and>
      future (loadConfig fileName parsed st) = [] \<and>
      (\<exists>msg. notification (loadConfig fileName parsed st) = Some (msg, success)) \<and>
      (\<forall>k. k \<noteq> ''theme'' \<and> k \<noteq> ''layout'' \<longrightarrow> get_prop (with_defaults j) k = get_prop j k) \<and>
      get_prop (with_defaults j) ''layout'' =
        (if prop_truthy j ''layout'' then get_prop j ''layout'' else Some default_layout) \<and>
      (\<exists>th th'. get_prop j ''theme'' = Some th \<and> get_prop (with_defaults j) ''theme'' = Some th' \<and>
         (\<forall>k. get_prop th' k =
            (if k \<in> set theme_sections \<and> \<not> prop_truthy th k then Some (JObj []) else get_prop th k))))"
proof (intro conjI impI)
  assume n: "\<not> (\<exists>j. parsed = Some j \<and> has_required_sections j)"
  have r: "loadConfig fileName parsed st = st\<lparr>notification := notification (loadConfig fileName parsed st)\<rparr> \<and>
      (\<exists>msg. notification (loadConfig fileName parsed st) = Some (msg, error))"
  proof (cases parsed)
    case None
    then show ?thesis by (simp add: loadConfig_def notify_def)
  next
    case (Some j)
    with n have "\<not> has_required_sections j" by simp
    then show ?thesis
      using Some
      by (cases j) (auto simp add: loadConfig_def notify_def has_required_sections_def)
  qed
  from r show "loadConfig fileName parsed st =
      st\<lparr>notification := notification (loadConfig fileName parsed st)\<rparr>" by (rule conjunct1)
  from r show "\<exists>msg. notification (loadConfig fileName parsed st) = Some (msg, error)"
    by (rule conjunct2)
next
  assume a: "parsed = Some j \<and> has_required_sections j"
  then have nn: "j \<noteq> JNull" and pg: "is_object_prop j ''pages''" and tm: "is_object_prop j ''theme''"
    and tp: "is_object_prop j ''templates''"
    by (simp_all add: has_required_sections_def)
  from tm obtain th where th: "get_prop j ''theme'' = Some th" "is_obj th"
    by (auto simp add: is_object_prop_def split: option.splits)
  note props = with_defaults_props [OF th]
  have l: "loadConfig fileName parsed st =
      (let j' = with_defaults j;
           st1 = st\<lparr>config := j', past := [], future := []\<rparr>;
           st2 = (case get_prop j' ''pages'' of
                    None \<Rightarrow> st1
                  | Some pgs \<Rightarrow>
                      (case keys_of pgs of
                         [] \<Rightarrow> st1
                       | firstKey # _ \<Rightarrow> if firstKey \<noteq> [] then setActivePageId firstKey st1 else st1))
       in notify (loaded_message fileName j') success st2)"
    using a nn pg tm tp by (cases j) (simp_all add: loadConfig_def)
  show "config (loadConfig fileName parsed st) = with_defaults j"
    unfolding l by (simp add: Let_def notify_def setActivePageId_def split: option.splits list.splits)
  show "past (loadConfig fileName parsed st) = []"
    unfolding l by (simp add: Let_def notify_def setActivePageId_def split: option.splits list.splits)
  show "future (loadConfig fileName parsed st) = []"
    unfolding l by (simp add: Let_def notify_def setActivePageId_def split: option.splits list.splits)
  show "\<exists>msg. notification (loadConfig fileName parsed st) = Some (msg, success)"
    unfolding l by (simp add: Let_def notify_def)
  show "\<forall>k. k \<noteq> ''theme'' \<and> k \<noteq> ''layout'' \<longrightarrow> get_prop (with_defaults j) k = get_prop j k"
    by (simp add: props)
  show "get_prop (with_defaults j) ''layout'' =
        (if prop_truthy j ''layout'' then get_prop j ''layout'' else Some default_layout)"
    by (simp add: props)
  show "\<exists>th th'. get_prop j ''theme'' = Some th \<and> get_prop (with_defaults j) ''theme'' = Some th' \<and>
         (\<forall>k. get_prop th' k =
            (if k \<in> set theme_sections \<and> \<not> prop_truthy th k then Some (JObj []) else get_prop th k))"
    using th by (simp add: props get_prop_backfill_all)
qed

theorem loadConfig_import_witness:
  "has_required_sections doc_good \<and> \<not> has_required_sections doc_bad \<and>
   loadConfig ''f.json'' None json_session =
     json_session\<lparr>notification := Some (''Error parsing JSON file. Check the file format.'', error)\<rparr> \<and>
   loadConfig ''f.json'' (Some doc_bad) json_session =
     json_session\<lparr>notification := Some (missing_message ''theme'', error)\<rparr> \<and>
   loadConfig ''f.json'' (Some doc_good) json_session =
     \<lparr>config =
        JObj [(''name'', JStr ''Quiz''), (''version'', JNum 3),
              (''pages'', JObj [(''p1'', JObj [(''path'', JStr ''1'')])]),
              (''theme'', JObj [(''fonts'', JObj []), (''colors'', JObj [(''primary'', JStr ''red'')]),
                               (''spacing'', JObj []), (''border_radius'', JObj []),
                               (''width'', JObj []), (''border'', JObj [])]),
              (''templates'', JObj []), (''layout'', default_layout)],
      past = [], future = [], activePageId = ''p1'',
      notification = Some (''Config loaded: Quiz (v3)'', success)\<rparr>"
proof -
  have g: "has_required_sections doc_good" by code_simp
  have b: "\<not> has_required_sections doc_bad" by code_simp
  have nb: "\<not> (\<exists>j. Some doc_bad = Some j \<and> has_required_sections j)" using b by simp
  have nn: "\<not> (\<exists>j. (None :: json option) = Some j \<and> has_required_sections j)" by simp
  have m0: "notification (loadConfig ''f.json'' None json_session) =
      Some (''Error parsing JSON file. Check the file format.'', error)" by code_simp
  have m1: "notification (loadConfig ''f.json'' (Some doc_bad) json_session) =
      Some (missing_message ''theme'', error)" by code_simp
  have w: "with_defaults doc_good =
        JObj [(''name'', JStr ''Quiz''), (''version'', JNum 3),
              (''pages'', JObj [(''p1'', JObj [(''path'', JStr ''1'')])]),
              (''theme'', JObj [(''fonts'', JObj []), (''colors'', JObj [(''primary'', JStr ''red'')]),
                               (''spacing'', JObj []), (''border_radius'', JObj []),
                               (''width'', JObj []), (''border'', JObj [])]),
              (''templates'', JObj []), (''layout'', default_layout)]"
    by code_simp
  have a: "activePageId (loadConfig ''f.json'' (Some doc_good) json_session) = ''p1''" by code_simp
  have m2: "notification (loadConfig ''f.json'' (Some doc_good) json_session) =
      Some (''Config loaded: Quiz (v3)'', success)" by code_simp
  note t0 = loadConfig_import [of None "''f.json''" json_session, THEN conjunct1, THEN mp, OF nn, THEN conjunct1]
  note t1 = loadConfig_import [of "Some doc_bad" "''f.json''" json_session, THEN conjunct1, THEN mp, OF nb,
      THEN conjunct1]
  note t2 = loadConfig_import [of "Some doc_good" "''f.json''" json_session doc_good, THEN conjunct2,
      THEN mp, OF conjI [OF refl g]]
  have r0: "loadConfig ''f.json'' None json_session =
     json_session\<lparr>notification := Some (''Error parsing JSON file. Check the file format.'', error)\<rparr>"
    using t0 m0 by simp
  have r1: "loadConfig ''f.json'' (Some doc_bad) json_session =
     json_session\<lparr>notification := Some (missing_message ''theme'', error)\<rparr>"
    using t1 m1 by simp
  let ?s = "loadConfig ''f.json'' (Some doc_good) json_session"
  have c: "config ?s = with_defaults doc_good" and p: "past ?s = []" and f: "future ?s = []"
    using t2 by blast+
  have "?s = \<lparr>config = config ?s, past = past ?s, future = future ?s, activePageId = activePageId ?s,
      notification = notification ?s\<rparr>" by simp
  then have r2: "?s = \<lparr>config = with_defaults doc_good, past = [], future = [], activePageId = ''p1'',
      notification = Some (''Config loaded: Quiz (v3)'', success)\<rparr>"
    using c p f a m2 by simp
  from g b r0 r1 r2 w show ?thesis by simp
qed

subsection \<open>Rendering Engine\<close>



lemma RecursiveRenderer_found:
  "componentName n = Some c \<Longrightarrow> registry_get c = Some Component \<Longrightarrow>
     RecursiveRenderer data th n =
       ComponentElement Component (resolveProps (props n) data) th
         (case children n of
            None \<Rightarrow> NoChildren
          | Some (NodeList cs) \<Rightarrow> ChildElements data th cs
          | Some (DataRef s) \<Rightarrow> if s = [] then NoChildren else RawData (resolveProp (JStr s) data))"
  by (simp add: RecursiveRenderer_def)






lemma react_render_leaf:
  assumes "componentName n = Some c" and "registry_get c = Some Component"
    and "\<not> outputs_children Component" and "react_render body data th n = Inr v"
  shows "\<exists>out. v = Output out"
proof -
  have "react_render body data th n =
      (case body Component (resolveProps (props n) data) th
              (case children n of
                 None \<Rightarrow> NoChildren
               | Some (NodeList cs) \<Rightarrow> ChildElements data th cs
               | Some (DataRef s) \<Rightarrow> if s = [] then NoChildren else RawData (resolveProp (JStr s) data)) of
         Inl e \<Rightarrow> Inl e
       | Inr out \<Rightarrow> Inr (Output out))"
    by (subst react_render.simps) (simp add: RecursiveRenderer_found [OF assms(1,2)] assms(3))
  with assms(4) show ?thesis by (auto split: sum.splits)
qed





end
